theory Spec2Isabelle
  imports Main "HOL-Library.Sublist"
begin

section \<open>The catalog manager of the catalog service\<close>

text \<open>
  A shallow embedding of \<^verbatim>\<open>manager/catalogManager.go\<close>. The process state (the
  package-level variables \<^verbatim>\<open>Catalog\<close> and \<^verbatim>\<open>refreshReqChannel\<close>, the log output and
  the calls made to external programs and to the directory walker) is a record that is
  passed through the functions. Everything the code asks of the operating system and of
  the libraries it imports (file reads, directory listings, YAML decoding, the calls
  \<^verbatim>\<open>filepath.Walk\<close> makes, the order in which \<^verbatim>\<open>range\<close> visits a Go map) is a field of
  an environment record, so every theorem holds for whatever these return. A Go panic
  and \<^verbatim>\<open>log.Fatal\<close> are values of the type \<open>crash\<close>.
\<close>

subsection \<open>Data model\<close>

datatype level = DebugLevel | InfoLevel | ErrorLevel

text \<open>A log record: the logrus level, the format string and the arguments.\<close>

type_synonym logrec = "level \<times> string \<times> string list"

datatype crash =
    NilDereference      \<comment> \<open>a method call on a nil \<^verbatim>\<open>os.FileInfo\<close>, or \<^verbatim>\<open>*p\<close> for a nil \<^verbatim>\<open>p\<close>\<close>
  | NilMapAssignment    \<comment> \<open>\<^verbatim>\<open>m[k] = v\<close> for a nil map \<^verbatim>\<open>m\<close>\<close>
  | IndexOutOfRange     \<comment> \<open>\<^verbatim>\<open>xs[0]\<close> for an empty slice\<close>
  | FatalExit           \<comment> \<open>\<^verbatim>\<open>log.Fatal\<close>: the process exits\<close>
  | BlockedForever      \<comment> \<open>a receive from an empty channel that nobody sends to\<close>

text \<open>
  Modelled from the spec: the package \<^verbatim>\<open>model\<close> (the struct types \<^verbatim>\<open>Template\<close>,
  \<^verbatim>\<open>RancherCompose\<close> and \<^verbatim>\<open>Question\<close>) is not among the sources. The fields of
  \<open>Template\<close> are those the manager assigns; a question has, by the spec, a variable
  name, a description, a label, a required flag, a default value and a declared type; of
  a section of the orchestration-compose document the manager uses the question list
  only.
\<close>

record Question =
  qVariable :: string
  qDescription :: string
  qLabel :: string
  qRequired :: bool
  qDefault :: string
  qType :: string

record RancherComposeSection =
  rcQuestions :: "Question list"

record Template =
  Path :: string
  Name :: string
  Category :: string
  Description :: string
  DefaultVersion :: string
  IconLink :: string
  VersionLinks :: "string \<rightharpoonup> string"
  DockerCompose :: string
  RancherCompose :: string
  Questions :: "Question list"

text \<open>
  The zero value \<^verbatim>\<open>model.Template{}\<close>. A nil map and an empty map read alike and are
  both \<open>Map.empty\<close> here; a nil slice is the empty list.
\<close>

definition zeroTemplate :: Template where
  "zeroTemplate = \<lparr> Path = [], Name = [], Category = [], Description = [],
     DefaultVersion = [], IconLink = [], VersionLinks = Map.empty, DockerCompose = [],
     RancherCompose = [], Questions = [] \<rparr>"

definition zeroSection :: RancherComposeSection where
  "zeroSection = \<lparr> rcQuestions = [] \<rparr>"

text \<open>What the manager reads of an \<^verbatim>\<open>os.FileInfo\<close>: \<^verbatim>\<open>Name()\<close> and \<^verbatim>\<open>IsDir()\<close>.\<close>

record FileInfo =
  fiName :: string
  fiIsDir :: bool

text \<open>One call \<^verbatim>\<open>walkFn(path, info, err)\<close> made by \<^verbatim>\<open>filepath.Walk\<close>.\<close>

type_synonym walkcall = "string \<times> FileInfo option \<times> string option"

text \<open>
  The environment. An error is \<open>Inl\<close> of its text. \<open>filepath_Walk_calls root\<close> is the
  sequence of calls that \<^verbatim>\<open>filepath.Walk(root, fn)\<close> makes as long as \<^verbatim>\<open>fn\<close> returns
  nil: one for the root, then one for each file and directory below it in lexical
  order, a second one for a directory whose names cannot be read, and one with a nil
  \<^verbatim>\<open>FileInfo\<close> for an entry that cannot be stat'ed. \<open>yaml_Unmarshal_RC\<close> gives the
  sections of the document in the order in which they are written (a later section of
  the same name replaces an earlier one in the Go map); \<open>range_RC\<close> gives the order in
  which \<^verbatim>\<open>range\<close> visits the keys of that map, which Go leaves unspecified. \<open>debug\<close>
  is the flag \<^verbatim>\<open>-debug\<close>, on which \<^verbatim>\<open>SetEnv\<close> raises the log level to debug.
\<close>

record env =
  catalogUrl :: string
  debug :: bool
  os_Stat_ok :: "string \<Rightarrow> bool"
  git_clone_ok :: bool
  git_pull_err :: "string option"
  filepath_Abs :: "string \<Rightarrow> string + string"
  ioutil_ReadFile :: "string \<Rightarrow> string + string"
  ioutil_ReadDir :: "string \<Rightarrow> string + FileInfo list"
  filepath_Walk_calls :: "string \<Rightarrow> walkcall list"
  yaml_Unmarshal_config :: "string \<Rightarrow> string + (string \<rightharpoonup> string)"
  yaml_Unmarshal_RC :: "string \<Rightarrow> string + (string \<times> RancherComposeSection) list"
  range_RC :: "(string \<times> RancherComposeSection) list \<Rightarrow> string list"

datatype extcall = ExecCommand "string list" | FilepathWalk string

text \<open>
  The process state. \<open>Catalog\<close> is \<open>None\<close> for the nil map the variable holds before
  \<^verbatim>\<open>Init\<close>; \<open>refreshReqChannel\<close> is the buffer of the channel of capacity 1; \<open>calls\<close>
  records, in order, the external commands run and the directory walks started.
\<close>

record state =
  Catalog :: "(string \<rightharpoonup> Template) option"
  refreshReqChannel :: "int list"
  logs :: "logrec list"
  calls :: "extcall list"

definition catalogRoot :: string where
  "catalogRoot = ''./DATA/templates/''"

subsection \<open>Library functions used by the manager\<close>

text \<open>\<^verbatim>\<open>strings.HasPrefix(s, p)\<close>.\<close>

definition HasPrefix :: "string \<Rightarrow> string \<Rightarrow> bool" where
  "HasPrefix s p = prefix p s"

text \<open>\<^verbatim>\<open>strings.Split(s, sep)\<close> for a separator of one byte.\<close>

fun Split :: "string \<Rightarrow> char \<Rightarrow> string list" where
  "Split [] c = [[]]"
| "Split (x # xs) c =
     (if x = c then [] # Split xs c
      else (case Split xs c of [] \<Rightarrow> [[x]] | t # ts \<Rightarrow> (x # t) # ts))"

text \<open>
  The regular expression \<^verbatim>\<open>^DATA/templates/[^/]+$\<close> held by \<^verbatim>\<open>metadataFolder\<close>: the
  text \<^verbatim>\<open>DATA/templates/\<close> followed by one or more bytes, none of them a slash.
\<close>

definition metadataFolder_MatchString :: "string \<Rightarrow> bool" where
  "metadataFolder_MatchString path =
     (prefix ''DATA/templates/'' path \<and>
      (let rest = drop (length ''DATA/templates/'') path
       in rest \<noteq> [] \<and> CHR ''/'' \<notin> set rest))"

text \<open>Indexing a Go map of strings: the zero value for a missing key.\<close>

definition index_str :: "(string \<rightharpoonup> string) \<Rightarrow> string \<Rightarrow> string" where
  "index_str m k = (case m k of None \<Rightarrow> [] | Some v \<Rightarrow> v)"

text \<open>
  \<^verbatim>\<open>RC[key]\<close> for the map decoded from the sections \<open>RC\<close>: the last section of that
  name, the zero value if there is none.
\<close>

definition index_RC :: "(string \<times> RancherComposeSection) list \<Rightarrow> string \<Rightarrow> RancherComposeSection" where
  "index_RC RC key = (case map_of (rev RC) key of None \<Rightarrow> zeroSection | Some v \<Rightarrow> v)"

text \<open>
  The records that are written, of those logged. \<^verbatim>\<open>SetEnv\<close> sets the level of logrus
  to debug when the flag \<^verbatim>\<open>-debug\<close> is given and leaves it at info otherwise; at the
  level info a record logged with \<^verbatim>\<open>log.Debugf\<close> is dropped.
\<close>

definition written :: "env \<Rightarrow> logrec list \<Rightarrow> logrec list" where
  "written e ms = filter (\<lambda>r. fst r \<noteq> DebugLevel \<or> debug e) ms"

text \<open>\<^verbatim>\<open>Catalog[key]\<close> with the comma-ok form; a nil map has no entry.\<close>

definition lookup_Catalog :: "state \<Rightarrow> string \<Rightarrow> Template option" where
  "lookup_Catalog s key = (case Catalog s of None \<Rightarrow> None | Some m \<Rightarrow> m key)"

subsection \<open>Reading files\<close>

text \<open>
  \<^verbatim>\<open>readTemplateConfig(relativePath, template)\<close>: returns the updated template and the
  records logged. When \<^verbatim>\<open>filepath.Abs\<close> fails the code logs and goes on with the empty
  file name that \<^verbatim>\<open>Abs\<close> returns beside the error.
\<close>

definition readTemplateConfig :: "env \<Rightarrow> string \<Rightarrow> Template \<Rightarrow> Template \<times> logrec list" where
  "readTemplateConfig e relativePath template =
     (let (filename, m1) =
            (case filepath_Abs e (relativePath @ ''/config.yml'') of
               Inl err \<Rightarrow> ([], [(ErrorLevel,
                   ''Error forming path to config file at path: %s, error: %v'',
                   [relativePath, err])])
             | Inr fn \<Rightarrow> (fn, []))
      in case ioutil_ReadFile e filename of
           Inl err \<Rightarrow> (template, m1 @ [(ErrorLevel,
               ''Error reading config file under template: %s, error: %v'',
               [relativePath, err])])
         | Inr yamlFile \<Rightarrow>
             (case yaml_Unmarshal_config e yamlFile of
                Inl err \<Rightarrow> (template, m1 @ [(ErrorLevel,
                    ''Error unmarshalling config.yml under template: %s, error: %v'',
                    [relativePath, err])])
              | Inr config \<Rightarrow>
                  (template\<lparr> Name := index_str config ''name'',
                             Category := index_str config ''category'',
                             Description := index_str config ''description'',
                             DefaultVersion := index_str config ''defaultVersion'' \<rparr>, m1)))"

text \<open>
  \<^verbatim>\<open>readFile(relativePath, fileName)\<close>: a pointer to the bytes read, or nil (\<open>None\<close>)
  when the read fails; and the records logged.
\<close>

definition readFile :: "env \<Rightarrow> string \<Rightarrow> string \<Rightarrow> string option \<times> logrec list" where
  "readFile e relativePath fileName =
     (let (filename, m1) =
            (case filepath_Abs e (relativePath @ ''/'' @ fileName) of
               Inl err \<Rightarrow> ([], [(ErrorLevel, ''Error forming path to file %s, error: %v'',
                   [relativePath @ ''/'' @ fileName, err])])
             | Inr fn \<Rightarrow> (fn, []))
      in case ioutil_ReadFile e filename of
           Inl err \<Rightarrow> (None, m1 @ [(ErrorLevel, ''Error reading file %s, error: %v'',
               [relativePath @ ''/'' @ fileName, err])])
         | Inr composeBytes \<Rightarrow> (Some composeBytes, m1))"

subsection \<open>Synchronising with the remote repository\<close>

text \<open>\<^verbatim>\<open>cloneCatalog\<close>: \<^verbatim>\<open>log.Fatal\<close> ends the process when the clone fails.\<close>

definition cloneCatalog :: "env \<Rightarrow> state \<Rightarrow> crash + state" where
  "cloneCatalog e s =
     (let s1 = s\<lparr> logs := logs s @
                   [(InfoLevel, ''Cloning the catalog from github url %s'', [catalogUrl e])],
                 calls := calls s @
                   [ExecCommand [''git'', ''clone'', catalogUrl e, ''./DATA'']] \<rparr>
      in if git_clone_ok e then Inr s1 else Inl FatalExit)"

definition pullCatalog :: "env \<Rightarrow> state \<Rightarrow> state" where
  "pullCatalog e s =
     (let s1 = s\<lparr> logs := logs s @
                   [(InfoLevel, ''Pulling the catalog from github to sync any new changes'', [])],
                 calls := calls s @
                   [ExecCommand [''git'', ''-C'', ''./DATA'', ''pull'', ''origin'', ''master'']] \<rparr>
      in case git_pull_err e of
           None \<Rightarrow> s1
         | Some err \<Rightarrow> s1\<lparr> logs := logs s1 @
             [(ErrorLevel, ''Failed to pull the catalog from github repo %s'',
               [catalogUrl e, err])] \<rparr>)"

subsection \<open>The directory walk\<close>

text \<open>The body of the loop over the entries of a template directory.\<close>

definition walkSubfile :: "FileInfo \<Rightarrow> Template \<Rightarrow> FileInfo \<Rightarrow> Template" where
  "walkSubfile f newTemplate subfile =
     (if fiIsDir subfile then
        newTemplate\<lparr> VersionLinks := (VersionLinks newTemplate)
          (fiName subfile \<mapsto> fiName f @ ''/'' @ fiName subfile) \<rparr>
      else if HasPrefix (fiName subfile) ''catalogIcon'' then
        newTemplate\<lparr> IconLink := fiName f @ ''/'' @ fiName subfile \<rparr>
      else newTemplate)"

text \<open>
  The template that \<^verbatim>\<open>walkCatalog\<close> builds for the directory \<open>f\<close> at \<open>path\<close>, and the
  records logged while building it.
\<close>

definition newTemplateOf :: "env \<Rightarrow> string \<Rightarrow> FileInfo \<Rightarrow> Template \<times> logrec list" where
  "newTemplateOf e path f =
     (let m0 = [(DebugLevel, ''Reading metadata folder for template:%s'', [fiName f])];
          t0 = zeroTemplate\<lparr> Path := fiName f \<rparr>;
          (t1, m1) = readTemplateConfig e path t0;
          t2 = t1\<lparr> VersionLinks := Map.empty \<rparr>
      in case ioutil_ReadDir e path of
           Inl err \<Rightarrow> (t2, m0 @ m1 @ [(ErrorLevel,
               ''Error reading directories at path: %s, error: %v'', [fiName f, err])])
         | Inr dirList \<Rightarrow> (foldl (walkSubfile f) t2 dirList, m0 @ m1))"

text \<open>
  \<^verbatim>\<open>walkCatalog(path, f, err)\<close>. The code never looks at \<open>err\<close> and always returns nil,
  so the result is the new state or a panic.
\<close>

definition walkCatalog :: "env \<Rightarrow> string \<Rightarrow> FileInfo option \<Rightarrow> string option \<Rightarrow> state \<Rightarrow> crash + state" where
  "walkCatalog e path fo err s =
     (case fo of
        None \<Rightarrow> Inl NilDereference
      | Some f \<Rightarrow>
          if fiIsDir f \<and> metadataFolder_MatchString path then
            (let (newTemplate, ms) = newTemplateOf e path f
             in case Catalog s of
                  None \<Rightarrow> Inl NilMapAssignment
                | Some m \<Rightarrow> Inr (s\<lparr> Catalog := Some (m(fiName f \<mapsto> newTemplate)),
                                    logs := logs s @ ms \<rparr>))
          else Inr s)"

text \<open>The calls of a walk, one after the other; a panic ends the walk.\<close>

fun walkCalls :: "env \<Rightarrow> walkcall list \<Rightarrow> state \<Rightarrow> crash + state" where
  "walkCalls e [] s = Inr s"
| "walkCalls e ((path, fo, err) # cs) s =
     (case walkCatalog e path fo err s of
        Inl c \<Rightarrow> Inl c
      | Inr s' \<Rightarrow> walkCalls e cs s')"

text \<open>\<^verbatim>\<open>filepath.Walk(root, walkCatalog)\<close>.\<close>

definition filepath_Walk :: "env \<Rightarrow> string \<Rightarrow> state \<Rightarrow> crash + state" where
  "filepath_Walk e root s =
     walkCalls e (filepath_Walk_calls e root) (s\<lparr> calls := calls s @ [FilepathWalk root] \<rparr>)"

subsection \<open>Init and RefreshCatalog\<close>

text \<open>
  \<^verbatim>\<open>Init\<close>. The last statement starts the goroutine of the background timer, which
  changes nothing until its first tick (the interval \<^verbatim>\<open>-refreshInterval\<close> is taken to be
  positive, as its default is: \<^verbatim>\<open>time.NewTicker\<close> panics otherwise).
\<close>

definition Init :: "env \<Rightarrow> state \<Rightarrow> crash + state" where
  "Init e s =
     (case (if \<not> os_Stat_ok e catalogRoot then cloneCatalog e s
            else Inr (pullCatalog e s)) of
        Inl c \<Rightarrow> Inl c
      | Inr s1 \<Rightarrow> filepath_Walk e catalogRoot (s1\<lparr> Catalog := Some Map.empty \<rparr>))"

text \<open>
  \<^verbatim>\<open>RefreshCatalog\<close>, run without interruption. The \<^verbatim>\<open>select\<close> sends when the buffer
  has room and takes the default branch otherwise.
\<close>

definition RefreshCatalog :: "env \<Rightarrow> state \<Rightarrow> crash + state" where
  "RefreshCatalog e s =
     (if length (refreshReqChannel s) < 1 then
        (let s1 = s\<lparr> refreshReqChannel := refreshReqChannel s @ [1] \<rparr>;
             s2 = pullCatalog e s1
         in case filepath_Walk e catalogRoot s2 of
              Inl c \<Rightarrow> Inl c
            | Inr s3 \<Rightarrow>
                (case refreshReqChannel s3 of
                   [] \<Rightarrow> Inl BlockedForever
                 | x # rest \<Rightarrow> Inr (s3\<lparr> refreshReqChannel := rest \<rparr>)))
      else Inr (s\<lparr> logs := logs s @
             [(InfoLevel, ''Refresh catalog is already in process, skipping'', [])] \<rparr>))"

subsection \<open>ReadTemplateVersion\<close>

text \<open>
  The variables the loop over the version directory updates: \<^verbatim>\<open>newTemplate\<close>,
  \<^verbatim>\<open>foundConfig\<close>, \<^verbatim>\<open>foundIcon\<close>, and the records logged so far.
\<close>

type_synonym versionAcc = "Template \<times> bool \<times> bool \<times> logrec list"

text \<open>
  The body of the loop. The result of \<^verbatim>\<open>readFile\<close> is dereferenced as it comes, so a
  nil result is a panic.
\<close>

definition versionSubfile :: "env \<Rightarrow> string \<Rightarrow> versionAcc \<Rightarrow> FileInfo \<Rightarrow> crash + versionAcc" where
  "versionSubfile e path acc subfile =
     (case acc of (newTemplate, foundConfig, foundIcon, ms) \<Rightarrow>
        if HasPrefix (fiName subfile) ''config.yml'' then
          (let (t, m) = readTemplateConfig e (catalogRoot @ path) newTemplate
           in Inr (t, True, foundIcon, ms @ m))
        else if HasPrefix (fiName subfile) ''catalogIcon'' then
          Inr (newTemplate\<lparr> IconLink := path @ ''/'' @ fiName subfile \<rparr>,
               foundConfig, True, ms)
        else if HasPrefix (fiName subfile) ''docker-compose'' then
          (case readFile e (catalogRoot @ path) (fiName subfile) of
             (None, m) \<Rightarrow> Inl NilDereference
           | (Some bytes, m) \<Rightarrow>
               Inr (newTemplate\<lparr> DockerCompose := bytes \<rparr>, foundConfig, foundIcon, ms @ m))
        else if HasPrefix (fiName subfile) ''rancher-compose'' then
          (case readFile e (catalogRoot @ path) (fiName subfile) of
             (None, m) \<Rightarrow> Inl NilDereference
           | (Some composeBytes, m) \<Rightarrow>
               (let t = newTemplate\<lparr> RancherCompose := composeBytes \<rparr>
                in case yaml_Unmarshal_RC e composeBytes of
                     Inl err \<Rightarrow> Inr (t, foundConfig, foundIcon, ms @ m @ [(ErrorLevel,
                         ''Error unmarshalling %s under template: %s, error: %v'',
                         [fiName subfile, path, err])])
                   | Inr RC \<Rightarrow>
                       Inr (foldl (\<lambda>t key. t\<lparr> Questions := rcQuestions (index_RC RC key) \<rparr>)
                              t (range_RC e RC),
                            foundConfig, foundIcon, ms @ m)))
        else Inr acc)"

fun versionLoop :: "env \<Rightarrow> string \<Rightarrow> FileInfo list \<Rightarrow> versionAcc \<Rightarrow> crash + versionAcc" where
  "versionLoop e path [] acc = Inr acc"
| "versionLoop e path (subfile # dirList) acc =
     (case versionSubfile e path acc subfile of
        Inl c \<Rightarrow> Inl c
      | Inr acc' \<Rightarrow> versionLoop e path dirList acc')"

text \<open>The block \<^verbatim>\<open>if !foundConfig { ... }\<close>.\<close>

definition useParentConfig :: "state \<Rightarrow> string \<Rightarrow> Template \<times> logrec list \<Rightarrow> crash + Template \<times> logrec list" where
  "useParentConfig s path tm =
     (case tm of (newTemplate, ms) \<Rightarrow>
       (case Split path CHR ''/'' of
          [] \<Rightarrow> Inl IndexOutOfRange
        | parentPath # tokens \<Rightarrow>
            (case lookup_Catalog s parentPath of
               Some parentMetadata \<Rightarrow>
                 Inr (newTemplate\<lparr> Name := Name parentMetadata,
                                   Category := Category parentMetadata,
                                   Description := Description parentMetadata,
                                   DefaultVersion := DefaultVersion parentMetadata \<rparr>, ms)
             | None \<Rightarrow>
                 Inr (newTemplate, ms @ [(DebugLevel,
                   ''Could not find the parent metadata %s'', [parentPath])]))))"

text \<open>The block \<^verbatim>\<open>if !foundIcon { ... }\<close>.\<close>

definition useParentIcon :: "state \<Rightarrow> string \<Rightarrow> Template \<times> logrec list \<Rightarrow> crash + Template \<times> logrec list" where
  "useParentIcon s path tm =
     (case tm of (newTemplate, ms) \<Rightarrow>
       (case Split path CHR ''/'' of
          [] \<Rightarrow> Inl IndexOutOfRange
        | parentPath # tokens \<Rightarrow>
            (case lookup_Catalog s parentPath of
               Some parentMetadata \<Rightarrow>
                 Inr (newTemplate\<lparr> IconLink := IconLink parentMetadata \<rparr>, ms)
             | None \<Rightarrow>
                 Inr (newTemplate, ms @ [(DebugLevel,
                   ''Could not find the parent metadata %s'', [parentPath])]))))"

text \<open>
  \<^verbatim>\<open>ReadTemplateVersion(path)\<close>: the template returned and the records logged, or a
  panic. The function has no error result.
\<close>

definition ReadTemplateVersion :: "env \<Rightarrow> string \<Rightarrow> state \<Rightarrow> crash + Template \<times> logrec list" where
  "ReadTemplateVersion e path s =
     (let newTemplate = zeroTemplate\<lparr> Path := path \<rparr>
      in case ioutil_ReadDir e (catalogRoot @ path) of
           Inl err \<Rightarrow> Inr (newTemplate, [(ErrorLevel,
               ''Error reading template at path: %s, error: %v'', [path, err])])
         | Inr dirList \<Rightarrow>
             (case versionLoop e path dirList (newTemplate, False, False, []) of
                Inl c \<Rightarrow> Inl c
              | Inr (t, foundConfig, foundIcon, ms) \<Rightarrow>
                  (case (if \<not> foundConfig then useParentConfig s path (t, ms)
                         else Inr (t, ms)) of
                     Inl c \<Rightarrow> Inl c
                   | Inr tm \<Rightarrow>
                       if \<not> foundIcon then useParentIcon s path tm else Inr tm)))"

subsection \<open>RefreshCatalog, statement by statement\<close>

text \<open>
  Several goroutines may run \<^verbatim>\<open>RefreshCatalog\<close> at once: the timer's goroutine and
  those of the requests that trigger a refresh. Each is at one of these points of the
  function: before the \<^verbatim>\<open>select\<close>; admitted and before \<^verbatim>\<open>pullCatalog\<close>; before the
  call of \<^verbatim>\<open>filepath.Walk\<close>; inside the walk, with the calls of \<^verbatim>\<open>walkCatalog\<close> that
  remain; before the receive that frees the channel; returned after a refresh; returned
  after the default branch.
\<close>

datatype pc =
    AtSelect
  | AtPull
  | AtWalk
  | Walking "walkcall list"
  | AtReceive
  | Done
  | Skipped

datatype outcome = Stepped pc state | NoStep | Crashed crash

text \<open>
  One step of one goroutine on the shared state. A send, a receive and a \<^verbatim>\<open>select\<close>
  on a channel are atomic in Go. One call of \<^verbatim>\<open>walkCatalog\<close> is taken as one step: all
  it does to the variables shared between goroutines is the one assignment
  \<^verbatim>\<open>Catalog[f.Name()] = newTemplate\<close> at its end, so that the values \<^verbatim>\<open>Catalog\<close> takes
  between statements are the same at any finer grain. That assignment itself is taken
  as indivisible. The code has no lock around the map, and Go promises nothing about a
  read of a map that overlaps a write to it; such a read is outside this model. A
  goroutine that has returned takes no step; a receive from an empty channel waits.
\<close>

fun refreshStep :: "env \<Rightarrow> pc \<Rightarrow> state \<Rightarrow> outcome" where
  "refreshStep e AtSelect s =
     (if length (refreshReqChannel s) < 1
      then Stepped AtPull (s\<lparr> refreshReqChannel := refreshReqChannel s @ [1] \<rparr>)
      else Stepped Skipped (s\<lparr> logs := logs s @
             [(InfoLevel, ''Refresh catalog is already in process, skipping'', [])] \<rparr>))"
| "refreshStep e AtPull s = Stepped AtWalk (pullCatalog e s)"
| "refreshStep e AtWalk s =
     Stepped (Walking (filepath_Walk_calls e catalogRoot))
       (s\<lparr> calls := calls s @ [FilepathWalk catalogRoot] \<rparr>)"
| "refreshStep e (Walking []) s = Stepped AtReceive s"
| "refreshStep e (Walking ((path, fo, err) # cs)) s =
     (case walkCatalog e path fo err s of
        Inl c \<Rightarrow> Crashed c
      | Inr s' \<Rightarrow> Stepped (Walking cs) s')"
| "refreshStep e AtReceive s =
     (case refreshReqChannel s of
        [] \<Rightarrow> NoStep
      | x # rest \<Rightarrow> Stepped Done (s\<lparr> refreshReqChannel := rest \<rparr>))"
| "refreshStep e Done s = NoStep"
| "refreshStep e Skipped s = NoStep"

text \<open>
  The process: the shared state, the point each goroutine is at, and the panic that
  ended the process, if any.
\<close>

record config =
  shared :: state
  pcs :: "pc list"
  crashed :: "crash option"

text \<open>The scheduler lets goroutine \<open>i\<close> take its next step.\<close>

definition schedStep :: "env \<Rightarrow> config \<Rightarrow> nat \<Rightarrow> config" where
  "schedStep e cfg i =
     (if crashed cfg \<noteq> None \<or> length (pcs cfg) \<le> i then cfg
      else case refreshStep e (pcs cfg ! i) (shared cfg) of
             Stepped p s' \<Rightarrow> cfg\<lparr> shared := s', pcs := (pcs cfg)[i := p] \<rparr>
           | NoStep \<Rightarrow> cfg
           | Crashed c \<Rightarrow> cfg\<lparr> crashed := Some c \<rparr>)"

text \<open>A schedule is the list of the goroutines chosen, step after step.\<close>

definition run :: "env \<Rightarrow> nat list \<Rightarrow> config \<Rightarrow> config" where
  "run e sched cfg = foldl (schedStep e) cfg sched"

text \<open>\<open>n\<close> invocations of \<^verbatim>\<open>RefreshCatalog\<close>, none of which has started.\<close>

definition triggered :: "nat \<Rightarrow> state \<Rightarrow> config" where
  "triggered n s = \<lparr> shared = s, pcs = replicate n AtSelect, crashed = None \<rparr>"

text \<open>
  Readers. The handler of a request reads the published mapping (the lookups
  \<^verbatim>\<open>Catalog[parentPath]\<close> of \<^verbatim>\<open>ReadTemplateVersion\<close>, the listing of the templates) at
  some point between the steps of the refreshing goroutines. An action is a step of the
  goroutine \<open>i\<close> or a read; the observations of a run are the values of \<^verbatim>\<open>Catalog\<close> that
  its reads find, in order. A process that has panicked serves no read.
\<close>

datatype action = GoStep nat | ReadCatalog

fun observations :: "env \<Rightarrow> action list \<Rightarrow> config \<Rightarrow> (string \<rightharpoonup> Template) option list" where
  "observations e [] cfg = []"
| "observations e (GoStep i # acts) cfg = observations e acts (schedStep e cfg i)"
| "observations e (ReadCatalog # acts) cfg =
     (if crashed cfg = None then [Catalog (shared cfg)] else []) @ observations e acts cfg"

text \<open>A goroutine is in flight from its admission to its release of the channel.\<close>

fun inFlight :: "pc \<Rightarrow> bool" where
  "inFlight AtPull = True"
| "inFlight AtWalk = True"
| "inFlight (Walking cs) = True"
| "inFlight AtReceive = True"
| "inFlight p = False"

definition pullCall :: extcall where
  "pullCall = ExecCommand [''git'', ''-C'', ''./DATA'', ''pull'', ''origin'', ''master'']"

definition walkCall :: extcall where
  "walkCall = FilepathWalk catalogRoot"

text \<open>The external calls an invocation has made when it is at a given point.\<close>

fun callsAt :: "pc \<Rightarrow> extcall list" where
  "callsAt AtWalk = [pullCall]"
| "callsAt (Walking cs) = [pullCall, walkCall]"
| "callsAt AtReceive = [pullCall, walkCall]"
| "callsAt Done = [pullCall, walkCall]"
| "callsAt p = []"

definition skipRecord :: logrec where
  "skipRecord = (InfoLevel, ''Refresh catalog is already in process, skipping'', [])"

text \<open>
  The template directories a walk discovers: the calls on which \<^verbatim>\<open>walkCatalog\<close> acts.
\<close>

fun discovered :: "walkcall \<Rightarrow> bool" where
  "discovered (path, Some f, err) = (fiIsDir f \<and> metadataFolder_MatchString path)"
| "discovered (path, None, err) = False"

text \<open>The key under which a discovered directory is installed, and its summary.\<close>

fun keyOf :: "walkcall \<Rightarrow> string" where
  "keyOf (path, Some f, err) = fiName f"
| "keyOf (path, None, err) = []"

fun summaryOf :: "env \<Rightarrow> walkcall \<Rightarrow> Template" where
  "summaryOf e (path, Some f, err) = fst (newTemplateOf e path f)"
| "summaryOf e (path, None, err) = zeroTemplate"

subsection \<open>Notions used in the statements\<close>

text \<open>
  What reading the file at the relative path \<open>p\<close> gives: the code passes the result of
  \<^verbatim>\<open>filepath.Abs\<close>, the empty name when that fails, to \<^verbatim>\<open>ioutil.ReadFile\<close>.
\<close>

definition readAt :: "env \<Rightarrow> string \<Rightarrow> string + string" where
  "readAt e p = ioutil_ReadFile e (case filepath_Abs e p of Inl err \<Rightarrow> [] | Inr fn \<Rightarrow> fn)"

text \<open>
  Every entry of the version directory at \<open>path\<close> that is named as a compose file can
  be read (nothing is asked when the directory cannot be listed).
\<close>

definition composeFilesReadable :: "env \<Rightarrow> string \<Rightarrow> bool" where
  "composeFilesReadable e path =
     (case ioutil_ReadDir e (catalogRoot @ path) of
        Inl err \<Rightarrow> True
      | Inr dirList \<Rightarrow>
          (\<forall>subfile \<in> set dirList.
             HasPrefix (fiName subfile) ''docker-compose'' \<or>
             HasPrefix (fiName subfile) ''rancher-compose'' \<longrightarrow>
             \<not> isl (readAt e (catalogRoot @ path @ ''/'' @ fiName subfile))))"

text \<open>The four fields that come from a configuration file.\<close>

definition configFields :: "Template \<Rightarrow> string \<times> string \<times> string \<times> string" where
  "configFields t = (Name t, Category t, Description t, DefaultVersion t)"

text \<open>The same four fields as a decoded configuration gives them.\<close>

definition fieldsOfConfig :: "(string \<rightharpoonup> string) \<Rightarrow> string \<times> string \<times> string \<times> string" where
  "fieldsOfConfig config =
     (index_str config ''name'', index_str config ''category'',
      index_str config ''description'', index_str config ''defaultVersion'')"

text \<open>
  The mapping of the spec's rebuild: built from nothing, it holds exactly the summaries
  of the template directories the walk discovers, a later call for the same key
  replacing an earlier one.
\<close>

definition install :: "env \<Rightarrow> (string \<rightharpoonup> Template) \<Rightarrow> walkcall \<Rightarrow> (string \<rightharpoonup> Template)" where
  "install e m c = (if discovered c then m(keyOf c \<mapsto> summaryOf e c) else m)"

definition freshMapping :: "env \<Rightarrow> walkcall list \<Rightarrow> (string \<rightharpoonup> Template)" where
  "freshMapping e cs = foldl (install e) Map.empty cs"

text \<open>
  Counts over a process: the goroutines in flight, those that have returned after a
  refresh, those that have returned after the default branch, and the skip records in
  the log.
\<close>

definition inFlightPcs :: "config \<Rightarrow> pc list" where
  "inFlightPcs cfg = filter inFlight (pcs cfg)"

definition doneCount :: "config \<Rightarrow> nat" where
  "doneCount cfg = length (filter (\<lambda>p. p = Done) (pcs cfg))"

definition skippedCount :: "config \<Rightarrow> nat" where
  "skippedCount cfg = length (filter (\<lambda>p. p = Skipped) (pcs cfg))"

definition skipsLogged :: "state \<Rightarrow> nat" where
  "skipsLogged s = length (filter (\<lambda>r. r = skipRecord) (logs s))"

text \<open>
  The invariant of the admission gate, for a process started in the state \<open>s0\<close>: at most
  one goroutine is in flight, the channel holds one item exactly when one is, the
  external calls are one pull followed by one walk for each refresh that has returned
  and then those of the refresh in flight, and the log has one skip record for each
  invocation that took the default branch.
\<close>

definition gateInv :: "state \<Rightarrow> config \<Rightarrow> bool" where
  "gateInv s0 cfg =
     (length (inFlightPcs cfg) \<le> 1 \<and>
      length (refreshReqChannel (shared cfg)) = length (inFlightPcs cfg) \<and>
      calls (shared cfg) =
        calls s0 @ concat (replicate (doneCount cfg) [pullCall, walkCall]) @
        concat (map callsAt (inFlightPcs cfg)) \<and>
      skipsLogged (shared cfg) = skipsLogged s0 + skippedCount cfg)"

text \<open>
  An entry \<open>entry\<close> of the published mapping under \<open>key\<close> is either the one the mapping
  \<open>m0\<close> held, or the summary installed by a call of the walk of the tree.
\<close>

definition oldOrInstalled :: "env \<Rightarrow> (string \<rightharpoonup> Template) \<Rightarrow> string \<Rightarrow> Template option \<Rightarrow> bool" where
  "oldOrInstalled e m0 key entry =
     (entry = m0 key \<or>
      (\<exists>c \<in> set (filepath_Walk_calls e catalogRoot).
         discovered c \<and> keyOf c = key \<and> entry = Some (summaryOf e c)))"

text \<open>
  The invariant of the published mapping while refreshes run, for a process started
  with the mapping \<open>m0\<close>: the map is not nil, each of its entries is the old one or one
  installed by a call of the walk, and the calls that remain to a goroutine inside the
  walk are calls of the walk.
\<close>

definition walkInv :: "env \<Rightarrow> (string \<rightharpoonup> Template) \<Rightarrow> config \<Rightarrow> bool" where
  "walkInv e m0 cfg =
     ((\<exists>m. Catalog (shared cfg) = Some m \<and> (\<forall>key. oldOrInstalled e m0 key (m key))) \<and>
      (\<forall>cs. Walking cs \<in> set (pcs cfg) \<longrightarrow>
         set cs \<subseteq> set (filepath_Walk_calls e catalogRoot)))"

section \<open>Two catalog trees\<close>

text \<open>
  A catalog with three templates, used to run the functions on concrete input. The
  process runs in \<^verbatim>\<open>/srv\<close>. Template \<^verbatim>\<open>t\<close> has a root configuration, an icon and
  four versions: \<^verbatim>\<open>t/1\<close> holds the two compose files, \<^verbatim>\<open>t/2\<close> its own
  \<^verbatim>\<open>config.yml\<close> and an orchestration-compose file of one section, \<^verbatim>\<open>t/3\<close> only a
  backup \<^verbatim>\<open>config.yml.bak\<close>, and \<^verbatim>\<open>t/4\<close> a directory named \<^verbatim>\<open>docker-compose.d\<close>.
  Template \<^verbatim>\<open>u\<close> is a directory that may be entered but not listed. Template \<^verbatim>\<open>w\<close>
  has one empty version and no configuration.
\<close>

definition exAbs :: "string \<Rightarrow> string + string" where
  "exAbs p = Inr (''/srv/'' @ (if prefix ''./'' p then drop 2 p else p))"

definition exFiles :: "(string \<times> string) list" where
  "exFiles =
     [(''/srv/DATA/templates/t/config.yml'', ''{name: A, category: C}''),
      (''/srv/DATA/templates/t/catalogIcon.png'', ''PNG''),
      (''/srv/DATA/templates/t/1/docker-compose.yml'', ''{web: {image: nginx}}''),
      (''/srv/DATA/templates/t/1/rancher-compose.yml'',
         ''{web: {scale: 1}, .catalog: {questions: [{variable: scale, type: int, default: 3}]}}''),
      (''/srv/DATA/templates/t/2/config.yml'', ''{name: B}''),
      (''/srv/DATA/templates/t/2/rancher-compose.yml'',
         ''{.catalog: {questions: [{variable: scale, type: int, default: 3}]}}''),
      (''/srv/DATA/templates/t/3/config.yml.bak'', ''{name: Z}''),
      (''/srv/DATA/templates/u/config.yml'', ''{name: U}'')]"

definition fileEntry :: "string \<Rightarrow> FileInfo" where
  "fileEntry n = \<lparr> fiName = n, fiIsDir = False \<rparr>"

definition dirEntry :: "string \<Rightarrow> FileInfo" where
  "dirEntry n = \<lparr> fiName = n, fiIsDir = True \<rparr>"

definition exDirs :: "(string \<times> FileInfo list) list" where
  "exDirs =
     [(''DATA/templates/t'',
         [dirEntry ''1'', dirEntry ''2'', dirEntry ''3'', dirEntry ''4'', fileEntry ''catalogIcon.png'', fileEntry ''config.yml'']),
      (''DATA/templates/w'', [dirEntry ''0'']),
      (''./DATA/templates/t/1'', [fileEntry ''docker-compose.yml'', fileEntry ''rancher-compose.yml'']),
      (''./DATA/templates/t/2'', [fileEntry ''config.yml'', fileEntry ''rancher-compose.yml'']),
      (''./DATA/templates/t/3'', [fileEntry ''config.yml.bak'']),
      (''./DATA/templates/t/4'', [dirEntry ''docker-compose.d'']),
      (''./DATA/templates/w/0'', [])]"

definition exWalk :: "walkcall list" where
  "exWalk =
     [(''./DATA/templates/'', Some (dirEntry ''templates''), None),
      (''DATA/templates/t'', Some (dirEntry ''t''), None),
      (''DATA/templates/t/1'', Some (dirEntry ''1''), None),
      (''DATA/templates/t/1/docker-compose.yml'', Some (fileEntry ''docker-compose.yml''), None),
      (''DATA/templates/t/1/rancher-compose.yml'', Some (fileEntry ''rancher-compose.yml''), None),
      (''DATA/templates/t/2'', Some (dirEntry ''2''), None),
      (''DATA/templates/t/2/config.yml'', Some (fileEntry ''config.yml''), None),
      (''DATA/templates/t/2/rancher-compose.yml'', Some (fileEntry ''rancher-compose.yml''), None),
      (''DATA/templates/t/3'', Some (dirEntry ''3''), None),
      (''DATA/templates/t/3/config.yml.bak'', Some (fileEntry ''config.yml.bak''), None),
      (''DATA/templates/t/4'', Some (dirEntry ''4''), None),
      (''DATA/templates/t/4/docker-compose.d'', Some (dirEntry ''docker-compose.d''), None),
      (''DATA/templates/t/catalogIcon.png'', Some (fileEntry ''catalogIcon.png''), None),
      (''DATA/templates/t/config.yml'', Some (fileEntry ''config.yml''), None),
      (''DATA/templates/u'', Some (dirEntry ''u''), None),
      (''DATA/templates/u'', Some (dirEntry ''u''), Some ''open DATA/templates/u: permission denied''),
      (''DATA/templates/w'', Some (dirEntry ''w''), None),
      (''DATA/templates/w/0'', Some (dirEntry ''0''), None)]"

definition exConfigs :: "(string \<times> (string \<times> string) list) list" where
  "exConfigs =
     [(''{name: A, category: C}'', [(''name'', ''A''), (''category'', ''C'')]),
      (''{name: B}'', [(''name'', ''B'')]),
      (''{name: Z}'', [(''name'', ''Z'')]),
      (''{name: U}'', [(''name'', ''U'')])]"

definition qScale :: Question where
  "qScale = \<lparr> qVariable = ''scale'', qDescription = [], qLabel = [], qRequired = False,
     qDefault = ''3'', qType = ''int'' \<rparr>"

definition exSections :: "(string \<times> (string \<times> RancherComposeSection) list) list" where
  "exSections =
     [(''{web: {scale: 1}, .catalog: {questions: [{variable: scale, type: int, default: 3}]}}'',
         [(''web'', \<lparr> rcQuestions = [] \<rparr>), (''.catalog'', \<lparr> rcQuestions = [qScale] \<rparr>)]),
      (''{.catalog: {questions: [{variable: scale, type: int, default: 3}]}}'',
         [(''.catalog'', \<lparr> rcQuestions = [qScale] \<rparr>)])]"

text \<open>
  In this run \<^verbatim>\<open>range\<close> visits the keys of a map in the ascending order of their
  bytes, one of the orders Go allows; \<^verbatim>\<open>.catalog\<close> comes before \<^verbatim>\<open>web\<close>.
\<close>

definition exRange :: "(string \<times> RancherComposeSection) list \<Rightarrow> string list" where
  "exRange RC =
     (if map fst RC = [''web'', ''.catalog''] then [''.catalog'', ''web''] else remdups (map fst RC))"

definition exEnv :: env where
  "exEnv = \<lparr> catalogUrl = ''https://example.com/catalog.git'',
     debug = False,
     os_Stat_ok = (\<lambda>p. True),
     git_clone_ok = True,
     git_pull_err = None,
     filepath_Abs = exAbs,
     ioutil_ReadFile = (\<lambda>p. case map_of exFiles p of
                               None \<Rightarrow> Inl ''cannot read''
                             | Some bytes \<Rightarrow> Inr bytes),
     ioutil_ReadDir = (\<lambda>p. case map_of exDirs p of
                              None \<Rightarrow> Inl ''cannot list''
                            | Some entries \<Rightarrow> Inr entries),
     filepath_Walk_calls = (\<lambda>root. exWalk),
     yaml_Unmarshal_config = (\<lambda>bytes. case map_of exConfigs bytes of
                                        None \<Rightarrow> Inl ''yaml: unmarshal errors''
                                      | Some kvs \<Rightarrow> Inr (map_of kvs)),
     yaml_Unmarshal_RC = (\<lambda>bytes. case map_of exSections bytes of
                                    None \<Rightarrow> Inl ''yaml: unmarshal errors''
                                  | Some RC \<Rightarrow> Inr RC),
     range_RC = exRange \<rparr>"

text \<open>The same repository with no template in it.\<close>

definition emptyEnv :: env where
  "emptyEnv = exEnv\<lparr>
     ioutil_ReadFile := (\<lambda>p. Inl ''cannot read''),
     ioutil_ReadDir := (\<lambda>p. Inl ''cannot list''),
     filepath_Walk_calls := (\<lambda>root. [(''./DATA/templates/'', Some (dirEntry ''templates''), None)]) \<rparr>"

text \<open>The state of a process that has just started.\<close>

definition startState :: state where
  "startState = \<lparr> Catalog = None, refreshReqChannel = [], logs = [], calls = [] \<rparr>"

text \<open>The summaries of the three templates.\<close>

definition tplT :: Template where
  "tplT = \<lparr> Path = ''t'', Name = ''A'', Category = ''C'', Description = [],
     DefaultVersion = [], IconLink = ''t/catalogIcon.png'',
     VersionLinks = [''1'' \<mapsto> ''t/1'', ''2'' \<mapsto> ''t/2'', ''3'' \<mapsto> ''t/3'', ''4'' \<mapsto> ''t/4''],
     DockerCompose = [], RancherCompose = [], Questions = [] \<rparr>"

definition tplU :: Template where
  "tplU = zeroTemplate\<lparr> Path := ''u'', Name := ''U'' \<rparr>"

definition tplW :: Template where
  "tplW = zeroTemplate\<lparr> Path := ''w'', VersionLinks := [''0'' \<mapsto> ''w/0''] \<rparr>"

text \<open>The state after \<^verbatim>\<open>Init\<close> on the catalog of three templates, but for the log.\<close>

definition exCatalog :: "string \<rightharpoonup> Template" where
  "exCatalog = [''t'' \<mapsto> tplT, ''u'' \<mapsto> tplU, ''w'' \<mapsto> tplW]"

definition servingState :: state where
  "servingState = \<lparr> Catalog = Some exCatalog, refreshReqChannel = [], logs = [],
     calls = [pullCall, walkCall] \<rparr>"

text \<open>The state after \<^verbatim>\<open>Init\<close> on the repository with no template, but for the log.\<close>

definition emptyServing :: state where
  "emptyServing = \<lparr> Catalog = Some Map.empty, refreshReqChannel = [], logs = [],
     calls = [pullCall, walkCall] \<rparr>"

text \<open>The definitions of the model and of the two trees, for evaluation.\<close>

lemmas model_defs = ReadTemplateVersion_def Init_def RefreshCatalog_def catalogRoot_def
  versionSubfile_def HasPrefix_def readTemplateConfig_def readFile_def useParentIcon_def
  useParentConfig_def lookup_Catalog_def filepath_Walk_def walkCatalog_def pullCatalog_def
  cloneCatalog_def metadataFolder_MatchString_def newTemplateOf_def zeroTemplate_def
  walkSubfile_def index_str_def index_RC_def zeroSection_def readAt_def
  composeFilesReadable_def configFields_def fieldsOfConfig_def pullCall_def walkCall_def

lemmas ex_defs = exEnv_def exAbs_def exFiles_def exDirs_def exWalk_def exConfigs_def
  exSections_def exRange_def fileEntry_def dirEntry_def qScale_def emptyEnv_def
  startState_def servingState_def emptyServing_def exCatalog_def tplT_def tplU_def tplW_def

section \<open>Properties of ReadTemplateVersion\<close>

subsection \<open>Reading one file\<close>

lemma Split_nonempty: "Split p c \<noteq> []"
  by (induction p) (auto split: list.splits)

lemma Split_hd: "\<exists>ts. Split p c = takeWhile (\<lambda>x. x \<noteq> c) p # ts"
  by (induction p) (auto split: list.splits)

lemma readTemplateConfig_fail:
  "isl (readAt e (rp @ ''/config.yml'')) \<Longrightarrow> fst (readTemplateConfig e rp t) = t"
  by (auto simp: readTemplateConfig_def readAt_def isl_def split: sum.splits prod.splits)

lemma readTemplateConfig_ok:
  "readAt e (rp @ ''/config.yml'') = Inr bytes \<Longrightarrow> yaml_Unmarshal_config e bytes = Inr config \<Longrightarrow>
   configFields (fst (readTemplateConfig e rp t)) = fieldsOfConfig config"
  by (auto simp: readTemplateConfig_def readAt_def configFields_def fieldsOfConfig_def split: sum.splits prod.splits)

lemma readTemplateConfig_other:
  "Path (fst (readTemplateConfig e rp t)) = Path t"
  "IconLink (fst (readTemplateConfig e rp t)) = IconLink t"
  "VersionLinks (fst (readTemplateConfig e rp t)) = VersionLinks t"
  "DockerCompose (fst (readTemplateConfig e rp t)) = DockerCompose t"
  "RancherCompose (fst (readTemplateConfig e rp t)) = RancherCompose t"
  "Questions (fst (readTemplateConfig e rp t)) = Questions t"
  by (auto simp: readTemplateConfig_def split: sum.splits prod.splits)

lemma readFile_Some: "fst (readFile e rp fn) = (case readAt e (rp @ ''/'' @ fn) of Inl err \<Rightarrow> None | Inr b \<Rightarrow> Some b)"
  by (auto simp: readFile_def readAt_def split: sum.splits prod.splits)

lemma foldl_Questions_fields:
  "configFields (foldl (\<lambda>t key. t\<lparr> Questions := f key \<rparr>) t ks) = configFields t"
  "IconLink (foldl (\<lambda>t key. t\<lparr> Questions := f key \<rparr>) t ks) = IconLink t"
  "Path (foldl (\<lambda>t key. t\<lparr> Questions := f key \<rparr>) t ks) = Path t"
  by (induction ks arbitrary: t) (auto simp: configFields_def)



lemma icon_not_config: "HasPrefix n ''catalogIcon'' \<Longrightarrow> \<not> HasPrefix n ''config.yml''"
  by (auto simp: HasPrefix_def prefix_def)

lemma versionSubfile_flags:
  assumes "versionSubfile e path (t, fc, fi, ms) sub = Inr (t', fc', fi', ms')"
  shows "fc' = (fc \<or> HasPrefix (fiName sub) ''config.yml'')"
    and "fi' = (fi \<or> HasPrefix (fiName sub) ''catalogIcon'')"
  using assms icon_not_config[of "fiName sub"]
  by (auto simp: versionSubfile_def Let_def split: if_splits prod.splits option.splits sum.splits)

lemma versionSubfile_Path:
  assumes "versionSubfile e path (t, fc, fi, ms) sub = Inr (t', fc', fi', ms')"
  shows "Path t' = Path t"
  using assms readTemplateConfig_other(1)[of e "catalogRoot @ path" t]
  by (auto simp: versionSubfile_def Let_def foldl_Questions_fields split: if_splits prod.splits option.splits sum.splits)

lemma versionSubfile_fields_noconfig:
  assumes "versionSubfile e path (t, fc, fi, ms) sub = Inr (t', fc', fi', ms')"
    and "\<not> HasPrefix (fiName sub) ''config.yml''"
  shows "configFields t' = configFields t"
  using assms
  by (auto simp: versionSubfile_def Let_def foldl_Questions_fields split: if_splits prod.splits option.splits sum.splits)
     (simp add: configFields_def)+

lemma versionSubfile_fields_fail:
  assumes "versionSubfile e path (t, fc, fi, ms) sub = Inr (t', fc', fi', ms')"
    and "isl (readAt e (catalogRoot @ path @ ''/config.yml''))"
  shows "configFields t' = configFields t"
proof (cases "HasPrefix (fiName sub) ''config.yml''")
  case True
  from assms(2) have "fst (readTemplateConfig e (catalogRoot @ path) t) = t"
    using readTemplateConfig_fail[of e "catalogRoot @ path" t] by simp
  with True assms(1) show ?thesis
    by (auto simp: versionSubfile_def Let_def split: prod.splits)
next
  case False
  with assms(1) show ?thesis by (rule versionSubfile_fields_noconfig)
qed

lemma versionSubfile_fields_ok:
  assumes "versionSubfile e path (t, fc, fi, ms) sub = Inr (t', fc', fi', ms')"
    and "readAt e (catalogRoot @ path @ ''/config.yml'') = Inr bytes"
    and "yaml_Unmarshal_config e bytes = Inr config"
    and "HasPrefix (fiName sub) ''config.yml''"
  shows "configFields t' = fieldsOfConfig config"
proof -
  have "configFields (fst (readTemplateConfig e (catalogRoot @ path) t)) = fieldsOfConfig config"
    using readTemplateConfig_ok[of e "catalogRoot @ path" bytes config t] assms(2,3) by simp
  with assms(1,4) show ?thesis
    by (auto simp: versionSubfile_def Let_def split: prod.splits)
qed

lemma versionSubfile_icon:
  assumes "versionSubfile e path (t, fc, fi, ms) sub = Inr (t', fc', fi', ms')"
  shows "IconLink t' = (if HasPrefix (fiName sub) ''catalogIcon'' then path @ ''/'' @ fiName sub else IconLink t)"
  using assms icon_not_config[of "fiName sub"] readTemplateConfig_other(2)[of e "catalogRoot @ path" t]
  by (auto simp: versionSubfile_def Let_def foldl_Questions_fields split: if_splits prod.splits option.splits sum.splits)

lemma versionSubfile_returns:
  assumes "HasPrefix (fiName sub) ''docker-compose'' \<or> HasPrefix (fiName sub) ''rancher-compose''
             \<longrightarrow> \<not> isl (readAt e (catalogRoot @ path @ ''/'' @ fiName sub))"
  shows "\<exists>acc'. versionSubfile e path acc sub = Inr acc'"
proof -
  obtain t fc fi ms where acc: "acc = (t, fc, fi, ms)" by (cases acc) auto
  have rf: "fst (readFile e (catalogRoot @ path) (fiName sub)) =
      (case readAt e ((catalogRoot @ path) @ ''/'' @ fiName sub) of Inl err \<Rightarrow> None | Inr b \<Rightarrow> Some b)"
    by (rule readFile_Some)
  show ?thesis using assms rf unfolding acc
    by (auto simp: versionSubfile_def Let_def isl_def split: if_splits prod.splits option.splits sum.splits)
qed


lemma versionLoop_ConsE:
  assumes "versionLoop e path (sub # dl) acc = Inr acc'"
  obtains acc1 where "versionSubfile e path acc sub = Inr acc1"
    and "versionLoop e path dl acc1 = Inr acc'"
  using assms by (auto split: sum.splits)

lemma versionLoop_flags:
  "versionLoop e path dl (t, fc, fi, ms) = Inr (t', fc', fi', ms') \<Longrightarrow>
     fc' = (fc \<or> (\<exists>sub \<in> set dl. HasPrefix (fiName sub) ''config.yml'')) \<and>
     fi' = (fi \<or> (\<exists>sub \<in> set dl. HasPrefix (fiName sub) ''catalogIcon''))"
proof (induction dl arbitrary: t fc fi ms)
  case Nil
  then show ?case by simp
next
  case (Cons sub dl)
  from Cons.prems obtain acc1 where 1: "versionSubfile e path (t, fc, fi, ms) sub = Inr acc1"
    and 2: "versionLoop e path dl acc1 = Inr (t', fc', fi', ms')"
    by (rule versionLoop_ConsE)
  obtain t1 fc1 fi1 ms1 where acc1: "acc1 = (t1, fc1, fi1, ms1)" by (cases acc1) auto
  from 1 acc1 have f: "fc1 = (fc \<or> HasPrefix (fiName sub) ''config.yml'')"
      "fi1 = (fi \<or> HasPrefix (fiName sub) ''catalogIcon'')"
    by (auto dest: versionSubfile_flags)
  from Cons.IH[OF 2[unfolded acc1]] f show ?case by auto
qed

lemma versionLoop_invariant:
  assumes "versionLoop e path dl acc = Inr acc'"
    and "P acc"
    and "\<And>a sub a'. sub \<in> set dl \<Longrightarrow> P a \<Longrightarrow> versionSubfile e path a sub = Inr a' \<Longrightarrow> P a'"
  shows "P acc'"
  using assms
proof (induction dl arbitrary: acc)
  case Nil
  then show ?case by simp
next
  case (Cons sub dl)
  from Cons.prems(1) obtain acc1 where 1: "versionSubfile e path acc sub = Inr acc1"
    and 2: "versionLoop e path dl acc1 = Inr acc'"
    by (rule versionLoop_ConsE)
  have P1: "P acc1" using Cons.prems(3)[of sub acc acc1] Cons.prems(2) 1 by simp
  show ?case
  proof (rule Cons.IH[OF 2 P1])
    fix a x a'
    assume "x \<in> set dl" "P a" "versionSubfile e path a x = Inr a'"
    then show "P a'" using Cons.prems(3)[of x a a'] by simp
  qed
qed

lemma versionLoop_Path:
  assumes "versionLoop e path dl (t, fc, fi, ms) = Inr (t', fc', fi', ms')"
  shows "Path t' = Path t"
proof -
  have "Path (fst (t', fc', fi', ms')) = Path t"
    by (rule versionLoop_invariant[OF assms, where P = "\<lambda>a. Path (fst a) = Path t"])
       (auto dest: versionSubfile_Path)
  then show ?thesis by simp
qed

lemma versionLoop_fields_noconfig:
  assumes "versionLoop e path dl (t, fc, fi, ms) = Inr (t', fc', fi', ms')"
    and "\<forall>sub \<in> set dl. \<not> HasPrefix (fiName sub) ''config.yml''"
  shows "configFields t' = configFields t"
proof -
  have "configFields (fst (t', fc', fi', ms')) = configFields t"
    by (rule versionLoop_invariant[OF assms(1), where P = "\<lambda>a. configFields (fst a) = configFields t"])
       (use assms(2) in \<open>auto dest: versionSubfile_fields_noconfig\<close>)
  then show ?thesis by simp
qed

lemma versionLoop_fields_fail:
  assumes "versionLoop e path dl (t, fc, fi, ms) = Inr (t', fc', fi', ms')"
    and "isl (readAt e (catalogRoot @ path @ ''/config.yml''))"
  shows "configFields t' = configFields t"
proof -
  have "configFields (fst (t', fc', fi', ms')) = configFields t"
    by (rule versionLoop_invariant[OF assms(1), where P = "\<lambda>a. configFields (fst a) = configFields t"])
       (use assms(2) in \<open>auto dest: versionSubfile_fields_fail\<close>)
  then show ?thesis by simp
qed

lemma versionLoop_fields_ok:
  assumes "versionLoop e path dl (t, False, fi, ms) = Inr (t', fc', fi', ms')"
    and "readAt e (catalogRoot @ path @ ''/config.yml'') = Inr bytes"
    and "yaml_Unmarshal_config e bytes = Inr config"
    and "fc'"
  shows "configFields t' = fieldsOfConfig config"
proof -
  let ?P = "\<lambda>a. fst (snd a) \<longrightarrow> configFields (fst a) = fieldsOfConfig config"
  have "?P (t', fc', fi', ms')"
  proof (rule versionLoop_invariant[OF assms(1), where P = ?P])
    show "?P (t, False, fi, ms)" by simp
  next
    fix a sub a'
    assume P: "?P a" and st: "versionSubfile e path a sub = Inr a'"
    obtain t1 c1 i1 m1 where a: "a = (t1, c1, i1, m1)" by (cases a) auto
    obtain t2 c2 i2 m2 where a': "a' = (t2, c2, i2, m2)" by (cases a') auto
    show "?P a'"
    proof (cases "HasPrefix (fiName sub) ''config.yml''")
      case True
      then show ?thesis
        using versionSubfile_fields_ok[OF st[unfolded a a'] assms(2,3)] a' by simp
    next
      case False
      then show ?thesis
        using versionSubfile_fields_noconfig[OF st[unfolded a a']]
          versionSubfile_flags(1)[OF st[unfolded a a']] P a a' by simp
    qed
  qed
  with assms(4) show ?thesis by simp
qed

lemma versionLoop_icon:
  assumes "versionLoop e path dl (t, fc, fi, ms) = Inr (t', fc', fi', ms')"
    and "\<forall>sub \<in> set dl. \<not> HasPrefix (fiName sub) ''catalogIcon''"
  shows "IconLink t' = IconLink t"
proof -
  have "IconLink (fst (t', fc', fi', ms')) = IconLink t"
    by (rule versionLoop_invariant[OF assms(1), where P = "\<lambda>a. IconLink (fst a) = IconLink t"])
       (use assms(2) in \<open>auto dest: versionSubfile_icon\<close>)
  then show ?thesis by simp
qed

lemma versionLoop_returns:
  assumes "\<forall>sub \<in> set dl. HasPrefix (fiName sub) ''docker-compose'' \<or> HasPrefix (fiName sub) ''rancher-compose''
             \<longrightarrow> \<not> isl (readAt e (catalogRoot @ path @ ''/'' @ fiName sub))"
  shows "\<exists>acc'. versionLoop e path dl acc = Inr acc'"
  using assms
proof (induction dl arbitrary: acc)
  case Nil
  show ?case by (rule exI[of _ acc]) simp
next
  case (Cons sub dl)
  then obtain acc1 where "versionSubfile e path acc sub = Inr acc1"
    using versionSubfile_returns[of sub e path acc] by auto
  then show ?case using Cons by auto
qed







subsection \<open>The whole function\<close>

lemma ReadTemplateVersion_unlisted:
  assumes "ioutil_ReadDir e (catalogRoot @ path) = Inl err"
  shows "ReadTemplateVersion e path s =
    Inr (zeroTemplate\<lparr> Path := path \<rparr>,
         [(ErrorLevel, ''Error reading template at path: %s, error: %v'', [path, err])])"
  using assms by (simp add: ReadTemplateVersion_def)

text \<open>What the two blocks after the loop do to the template the loop has built.\<close>

lemma ReadTemplateVersion_listed:
  assumes "ioutil_ReadDir e (catalogRoot @ path) = Inr dl"
    and "ReadTemplateVersion e path s = Inr (t, ms)"
  obtains t1 fc fi ms1 where
    "versionLoop e path dl (zeroTemplate\<lparr> Path := path \<rparr>, False, False, []) = Inr (t1, fc, fi, ms1)"
    and "configFields t =
           (if fc then configFields t1
            else case lookup_Catalog s (hd (Split path CHR ''/'')) of
                   None \<Rightarrow> configFields t1 | Some pm \<Rightarrow> configFields pm)"
    and "IconLink t =
           (if fi then IconLink t1
            else case lookup_Catalog s (hd (Split path CHR ''/'')) of
                   None \<Rightarrow> IconLink t1 | Some pm \<Rightarrow> IconLink pm)"
    and "Questions t = Questions t1" and "Path t = Path t1"
    and "(\<not> fc \<or> \<not> fi) \<and> lookup_Catalog s (hd (Split path CHR ''/'')) = None \<longrightarrow>
           (DebugLevel, ''Could not find the parent metadata %s'', [hd (Split path CHR ''/'')]) \<in> set ms"
proof -
  obtain p ts where sp: "Split path CHR ''/'' = p # ts"
    using Split_nonempty[of path "CHR ''/''"] by (cases "Split path CHR ''/''") auto
  from assms obtain t1 fc fi ms1 where
    loop: "versionLoop e path dl (zeroTemplate\<lparr> Path := path \<rparr>, False, False, []) = Inr (t1, fc, fi, ms1)"
    by (auto simp: ReadTemplateVersion_def split: sum.splits)
  from assms loop have rest:
    "(case (if \<not> fc then useParentConfig s path (t1, ms1) else Inr (t1, ms1)) of
        Inl c \<Rightarrow> Inl c
      | Inr tm \<Rightarrow> if \<not> fi then useParentIcon s path tm else Inr tm) = Inr (t, ms)"
    by (simp add: ReadTemplateVersion_def)
  show thesis
  proof (rule that[OF loop])
    show "configFields t =
           (if fc then configFields t1
            else case lookup_Catalog s (hd (Split path CHR ''/'')) of
                   None \<Rightarrow> configFields t1 | Some pm \<Rightarrow> configFields pm)"
      using rest sp
      by (auto simp: useParentConfig_def useParentIcon_def configFields_def
               split: if_splits sum.splits option.splits)
    show "IconLink t =
           (if fi then IconLink t1
            else case lookup_Catalog s (hd (Split path CHR ''/'')) of
                   None \<Rightarrow> IconLink t1 | Some pm \<Rightarrow> IconLink pm)"
      using rest sp
      by (auto simp: useParentConfig_def useParentIcon_def
               split: if_splits sum.splits option.splits)
    show "Questions t = Questions t1"
      using rest sp
      by (auto simp: useParentConfig_def useParentIcon_def
               split: if_splits sum.splits option.splits)
    show "Path t = Path t1"
      using rest sp
      by (auto simp: useParentConfig_def useParentIcon_def
               split: if_splits sum.splits option.splits)
    show "(\<not> fc \<or> \<not> fi) \<and> lookup_Catalog s (hd (Split path CHR ''/'')) = None \<longrightarrow>
           (DebugLevel, ''Could not find the parent metadata %s'', [hd (Split path CHR ''/'')]) \<in> set ms"
      using rest sp
      by (auto simp: useParentConfig_def useParentIcon_def
               split: if_splits sum.splits option.splits)
  qed
qed

lemma useParent_returns:
  "\<exists>r. useParentConfig s path tm = Inr r" "\<exists>r. useParentIcon s path tm = Inr r"
proof -
  obtain p ts where sp: "Split path CHR ''/'' = p # ts"
    using Split_nonempty[of path "CHR ''/''"] by (cases "Split path CHR ''/''") auto
  obtain t ms where tm: "tm = (t, ms)" by (cases tm) auto
  show "\<exists>r. useParentConfig s path tm = Inr r"
    by (simp add: useParentConfig_def sp tm split: option.splits)
  show "\<exists>r. useParentIcon s path tm = Inr r"
    by (simp add: useParentIcon_def sp tm split: option.splits)
qed

lemma ReadTemplateVersion_returns:
  assumes "composeFilesReadable e path"
  shows "\<exists>t ms. ReadTemplateVersion e path s = Inr (t, ms)"
proof (cases "ioutil_ReadDir e (catalogRoot @ path)")
  case (Inl err)
  then show ?thesis by (simp add: ReadTemplateVersion_unlisted)
next
  case (Inr dl)
  with assms have "\<forall>sub \<in> set dl. HasPrefix (fiName sub) ''docker-compose'' \<or> HasPrefix (fiName sub) ''rancher-compose''
             \<longrightarrow> \<not> isl (readAt e (catalogRoot @ path @ ''/'' @ fiName sub))"
    by (simp add: composeFilesReadable_def)
  then obtain acc where loop: "versionLoop e path dl (zeroTemplate\<lparr> Path := path \<rparr>, False, False, []) = Inr acc"
    using versionLoop_returns by blast
  obtain t1 fc fi ms1 where acc: "acc = (t1, fc, fi, ms1)" by (cases acc) auto
  obtain r1 where r1: "(if \<not> fc then useParentConfig s path (t1, ms1) else Inr (t1, ms1)) = Inr r1"
    using useParent_returns(1)[of s path "(t1, ms1)"] by (cases fc) auto
  obtain r2 where r2: "(if \<not> fi then useParentIcon s path r1 else Inr r1) = Inr r2"
    using useParent_returns(2)[of s path r1] by (cases fi) auto
  have "ReadTemplateVersion e path s = Inr r2"
    using Inr loop acc r1 r2 by (simp add: ReadTemplateVersion_def)
  then show ?thesis by (cases r2) auto
qed


section \<open>The claims about ReadTemplateVersion\<close>

text \<open>
  Claim C3: a file of a version directory whose read fails is logged, treated as absent,
  and the operation returns normally. The code does log the failure in \<^verbatim>\<open>readFile\<close>,
  which then returns nil; \<^verbatim>\<open>ReadTemplateVersion\<close> dereferences that result without a
  check. In the version directory \<^verbatim>\<open>t/4\<close>, whose only entry is the directory
  \<^verbatim>\<open>docker-compose.d\<close> (which cannot be read as a file), the operation panics.
\<close>

theorem C3_unreadable_compose_file_panics:
  "ioutil_ReadDir exEnv (catalogRoot @ ''t/4'') = Inr [dirEntry ''docker-compose.d''] \<and>
   readAt exEnv (catalogRoot @ ''t/4'' @ ''/'' @ ''docker-compose.d'') = Inl ''cannot read'' \<and>
   ReadTemplateVersion exEnv ''t/4'' servingState = Inl NilDereference"
  by (simp add: model_defs ex_defs)

text \<open>
  Claim C10: when the listing of a version directory has an entry whose name begins with
  \<^verbatim>\<open>config.yml\<close> (such as \<^verbatim>\<open>config.yml.bak\<close>) and the file \<^verbatim>\<open>config.yml\<close> itself
  cannot be read, own-config is marked as found, nothing is inherited from the parent,
  and name, category, description and defaultVersion of the result are empty, whatever
  the published mapping holds for the parent.
\<close>

theorem C10_config_prefix_suppresses_inheritance:
  assumes "ioutil_ReadDir e (catalogRoot @ path) = Inr dirList"
    and "\<exists>subfile \<in> set dirList. HasPrefix (fiName subfile) ''config.yml''"
    and "isl (readAt e (catalogRoot @ path @ ''/config.yml''))"
    and "ReadTemplateVersion e path s = Inr (t, ms)"
  shows "Name t = [] \<and> Category t = [] \<and> Description t = [] \<and> DefaultVersion t = []"
proof -
  from assms(1,4) obtain t1 fc fi ms1 where
    loop: "versionLoop e path dirList (zeroTemplate\<lparr> Path := path \<rparr>, False, False, []) = Inr (t1, fc, fi, ms1)"
    and flds: "configFields t =
           (if fc then configFields t1
            else case lookup_Catalog s (hd (Split path CHR ''/'')) of
                   None \<Rightarrow> configFields t1 | Some pm \<Rightarrow> configFields pm)"
    by (rule ReadTemplateVersion_listed)
  from versionLoop_flags[OF loop] assms(2) have "fc" by simp
  moreover from versionLoop_fields_fail[OF loop assms(3)]
  have "configFields t1 = configFields (zeroTemplate\<lparr> Path := path \<rparr>)" .
  ultimately have "configFields t = ([], [], [], [])"
    using flds by (simp add: configFields_def zeroTemplate_def)
  then show ?thesis by (simp add: configFields_def)
qed

text \<open>
  In \<^verbatim>\<open>t/3\<close> the only entry is \<^verbatim>\<open>config.yml.bak\<close>; the parent \<^verbatim>\<open>t\<close> has the name
  \<^verbatim>\<open>A\<close>, the version has none.
\<close>

theorem C10_config_prefix_suppresses_inheritance_witness:
  "ioutil_ReadDir exEnv (catalogRoot @ ''t/3'') = Inr [fileEntry ''config.yml.bak''] \<and>
   HasPrefix (fiName (fileEntry ''config.yml.bak'')) ''config.yml'' \<and>
   isl (readAt exEnv (catalogRoot @ ''t/3'' @ ''/config.yml'')) \<and>
   lookup_Catalog servingState ''t'' = Some tplT \<and> Name tplT = ''A'' \<and>
   ReadTemplateVersion exEnv ''t/3'' servingState =
     Inr (zeroTemplate\<lparr> Path := ''t/3'', IconLink := ''t/catalogIcon.png'' \<rparr>,
          [(ErrorLevel, ''Error reading config file under template: %s, error: %v'',
            [''./DATA/templates/t/3'', ''cannot read''])]) \<and>
   Name (zeroTemplate\<lparr> Path := ''t/3'', IconLink := ''t/catalogIcon.png'' \<rparr>) = []"
proof -
  have 1: "ioutil_ReadDir exEnv (catalogRoot @ ''t/3'') = Inr [fileEntry ''config.yml.bak'']"
    by (simp add: model_defs ex_defs)
  have 2: "\<exists>subfile \<in> set [fileEntry ''config.yml.bak'']. HasPrefix (fiName subfile) ''config.yml''"
    by (simp add: model_defs ex_defs)
  have 3: "isl (readAt exEnv (catalogRoot @ ''t/3'' @ ''/config.yml''))"
    by (simp add: model_defs ex_defs)
  have 4: "ReadTemplateVersion exEnv ''t/3'' servingState =
     Inr (zeroTemplate\<lparr> Path := ''t/3'', IconLink := ''t/catalogIcon.png'' \<rparr>,
          [(ErrorLevel, ''Error reading config file under template: %s, error: %v'',
            [''./DATA/templates/t/3'', ''cannot read''])])"
    by (simp add: model_defs ex_defs)
  have 5: "lookup_Catalog servingState ''t'' = Some tplT \<and> Name tplT = ''A''"
    by (simp add: model_defs ex_defs)
  from C10_config_prefix_suppresses_inheritance[OF 1 2 3 4] 1 2 3 4 5
  show ?thesis by simp
qed


text \<open>
  Claim C5: a lookup of a version directory that does not exist fails with a typed
  not-found result, distinct from a parse error. The function has no error result:
  for the directory \<^verbatim>\<open>ghost/1\<close>, which cannot be listed, it returns an ordinary
  template with only the path set, as it does for a directory with nothing in it.
\<close>

theorem C5_missing_directory_counterexample:
  "ioutil_ReadDir exEnv (catalogRoot @ ''ghost/1'') = Inl ''cannot list'' \<and>
   ReadTemplateVersion exEnv ''ghost/1'' servingState =
     Inr (zeroTemplate\<lparr> Path := ''ghost/1'' \<rparr>,
          [(ErrorLevel, ''Error reading template at path: %s, error: %v'',
            [''ghost/1'', ''cannot list''])])"
  by (simp add: model_defs ex_defs)

text \<open>
  Claim C5 as amended: when the version directory cannot be listed, the function logs the
  error and returns a template in which only the path is set; and it returns a
  template, without failing, whenever every entry named as a compose file can be read,
  so in particular when configuration, icon and compose files are all missing.
\<close>

theorem C5_missing_directory_returns_template:
  "(ioutil_ReadDir e (catalogRoot @ path) = Inl err \<longrightarrow>
      ReadTemplateVersion e path s =
        Inr (zeroTemplate\<lparr> Path := path \<rparr>,
             [(ErrorLevel, ''Error reading template at path: %s, error: %v'', [path, err])])) \<and>
   (composeFilesReadable e path \<longrightarrow>
      (\<exists>t ms. ReadTemplateVersion e path s = Inr (t, ms) \<and> Path t = path))"
proof (intro conjI impI)
  assume "ioutil_ReadDir e (catalogRoot @ path) = Inl err"
  then show "ReadTemplateVersion e path s =
        Inr (zeroTemplate\<lparr> Path := path \<rparr>,
             [(ErrorLevel, ''Error reading template at path: %s, error: %v'', [path, err])])"
    by (rule ReadTemplateVersion_unlisted)
next
  assume "composeFilesReadable e path"
  then obtain t ms where r: "ReadTemplateVersion e path s = Inr (t, ms)"
    using ReadTemplateVersion_returns by blast
  have "Path t = path"
  proof (cases "ioutil_ReadDir e (catalogRoot @ path)")
    case (Inl err')
    with r show ?thesis by (auto simp: ReadTemplateVersion_unlisted zeroTemplate_def)
  next
    case (Inr dl)
    from Inr r obtain t1 fc fi ms1 where
      loop: "versionLoop e path dl (zeroTemplate\<lparr> Path := path \<rparr>, False, False, []) = Inr (t1, fc, fi, ms1)"
      and p: "Path t = Path t1"
      by (rule ReadTemplateVersion_listed)
    from versionLoop_Path[OF loop] p show ?thesis by (simp add: zeroTemplate_def)
  qed
  with r show "\<exists>t ms. ReadTemplateVersion e path s = Inr (t, ms) \<and> Path t = path" by blast
qed

text \<open>The directory \<^verbatim>\<open>ghost/1\<close> does not exist; \<^verbatim>\<open>w/0\<close> exists and is empty.\<close>

theorem C5_missing_directory_returns_template_witness:
  "ioutil_ReadDir exEnv (catalogRoot @ ''ghost/1'') = Inl ''cannot list'' \<and>
   composeFilesReadable exEnv ''w/0'' \<and>
   ReadTemplateVersion exEnv ''ghost/1'' emptyServing =
     Inr (zeroTemplate\<lparr> Path := ''ghost/1'' \<rparr>,
          [(ErrorLevel, ''Error reading template at path: %s, error: %v'',
            [''ghost/1'', ''cannot list''])]) \<and>
   (\<exists>t ms. ReadTemplateVersion exEnv ''w/0'' emptyServing = Inr (t, ms) \<and> Path t = ''w/0'')"
proof -
  have 1: "ioutil_ReadDir exEnv (catalogRoot @ ''ghost/1'') = Inl ''cannot list''"
    by (simp add: model_defs ex_defs)
  have 2: "composeFilesReadable exEnv ''w/0''"
    by (simp add: model_defs ex_defs)
  from C5_missing_directory_returns_template[of exEnv "''ghost/1''" "''cannot list''" emptyServing] 1
    C5_missing_directory_returns_template[of exEnv "''w/0''" "''cannot list''" emptyServing] 2
  show ?thesis by blast
qed

text \<open>
  What a lookup does when the template id (the part of the path before the first slash)
  has no entry in the published mapping, in terms of the records logged.
\<close>

lemma missing_parent_logged:
  assumes "lookup_Catalog s (hd (Split path CHR ''/'')) = None"
    and "composeFilesReadable e path"
  shows "\<exists>t ms. ReadTemplateVersion e path s = Inr (t, ms) \<and>
     (case ioutil_ReadDir e (catalogRoot @ path) of
        Inl err \<Rightarrow>
          configFields t = ([], [], [], []) \<and> IconLink t = [] \<and>
          (ErrorLevel, ''Error reading template at path: %s, error: %v'', [path, err]) \<in> set ms
      | Inr dirList \<Rightarrow>
          ((\<forall>subfile \<in> set dirList. \<not> HasPrefix (fiName subfile) ''config.yml'') \<longrightarrow>
             configFields t = ([], [], [], []) \<and>
             (DebugLevel, ''Could not find the parent metadata %s'',
               [hd (Split path CHR ''/'')]) \<in> set ms) \<and>
          ((\<forall>subfile \<in> set dirList. \<not> HasPrefix (fiName subfile) ''catalogIcon'') \<longrightarrow>
             IconLink t = [] \<and>
             (DebugLevel, ''Could not find the parent metadata %s'',
               [hd (Split path CHR ''/'')]) \<in> set ms))"
proof -
  from assms(2) obtain t ms where r: "ReadTemplateVersion e path s = Inr (t, ms)"
    using ReadTemplateVersion_returns by blast
  show ?thesis
  proof (cases "ioutil_ReadDir e (catalogRoot @ path)")
    case (Inl err)
    with r show ?thesis
      by (auto simp: ReadTemplateVersion_unlisted zeroTemplate_def configFields_def)
  next
    case (Inr dl)
    from Inr r obtain t1 fc fi ms1 where
      loop: "versionLoop e path dl (zeroTemplate\<lparr> Path := path \<rparr>, False, False, []) = Inr (t1, fc, fi, ms1)"
      and flds: "configFields t =
           (if fc then configFields t1
            else case lookup_Catalog s (hd (Split path CHR ''/'')) of
                   None \<Rightarrow> configFields t1 | Some pm \<Rightarrow> configFields pm)"
      and icon: "IconLink t =
           (if fi then IconLink t1
            else case lookup_Catalog s (hd (Split path CHR ''/'')) of
                   None \<Rightarrow> IconLink t1 | Some pm \<Rightarrow> IconLink pm)"
      and dbg: "(\<not> fc \<or> \<not> fi) \<and> lookup_Catalog s (hd (Split path CHR ''/'')) = None \<longrightarrow>
           (DebugLevel, ''Could not find the parent metadata %s'', [hd (Split path CHR ''/'')]) \<in> set ms"
      by (rule ReadTemplateVersion_listed)
    note fl = versionLoop_flags[OF loop]
    have a: "configFields t = ([], [], [], []) \<and>
             (DebugLevel, ''Could not find the parent metadata %s'',
               [hd (Split path CHR ''/'')]) \<in> set ms"
      if nc: "\<forall>subfile \<in> set dl. \<not> HasPrefix (fiName subfile) ''config.yml''"
    proof -
      from fl nc have "\<not> fc" by simp
      moreover from versionLoop_fields_noconfig[OF loop nc]
      have "configFields t1 = ([], [], [], [])" by (simp add: configFields_def zeroTemplate_def)
      ultimately show ?thesis using flds dbg assms(1) by simp
    qed
    have b: "IconLink t = [] \<and>
             (DebugLevel, ''Could not find the parent metadata %s'',
               [hd (Split path CHR ''/'')]) \<in> set ms"
      if ni: "\<forall>subfile \<in> set dl. \<not> HasPrefix (fiName subfile) ''catalogIcon''"
    proof -
      from fl ni have "\<not> fi" by simp
      moreover from versionLoop_icon[OF loop ni]
      have "IconLink t1 = []" by (simp add: zeroTemplate_def)
      ultimately show ?thesis using icon dbg assms(1) by simp
    qed
    from a b r Inr show ?thesis by simp
  qed
qed

lemma written_iff: "r \<in> set (written e ms) \<longleftrightarrow> r \<in> set ms \<and> (fst r \<noteq> DebugLevel \<or> debug e)"
  by (auto simp: written_def)

text \<open>
  Claim C7: when the template id has no entry in the published mapping, the lookup
  leaves the fields that would have been inherited empty, records a diagnostic and
  returns a result rather than crashing. With the published mapping empty, the lookup
  of \<^verbatim>\<open>t/4\<close>, whose one entry \<^verbatim>\<open>docker-compose.d\<close> cannot be read as a file, panics (the
  nil dereference of claim C3 comes before the parent is looked up); and the lookup of
  the empty directory \<^verbatim>\<open>w/0\<close> returns, but with the flag \<^verbatim>\<open>-debug\<close> off nothing is
  written to the log, since the missing parent is reported with \<^verbatim>\<open>log.Debugf\<close> only.
\<close>

theorem C7_missing_parent_counterexample:
  "lookup_Catalog emptyServing (hd (Split ''t/4'' CHR ''/'')) = None \<and>
   ReadTemplateVersion exEnv ''t/4'' emptyServing = Inl NilDereference \<and>
   lookup_Catalog emptyServing (hd (Split ''w/0'' CHR ''/'')) = None \<and>
   \<not> debug exEnv \<and>
   map_sum id (written exEnv \<circ> snd) (ReadTemplateVersion exEnv ''w/0'' emptyServing) = Inr []"
  by (simp add: model_defs ex_defs written_def)

text \<open>
  Claim C7 as amended: when the template id has no entry in the published mapping and
  every entry of the version directory that is named as a compose file can be read, the
  lookup returns a result, and the fields that would have been inherited are empty: the
  four configuration fields when no entry is named as a configuration file, the icon
  when no entry is named as an icon. The missing parent is logged with \<^verbatim>\<open>log.Debugf\<close>,
  a record that is written exactly when the flag \<^verbatim>\<open>-debug\<close> is set; when the directory
  itself cannot be listed, all five fields are empty and the error is logged at error
  level, which is always written.
\<close>

theorem C7_missing_parent_leaves_fields_empty:
  assumes "lookup_Catalog s (hd (Split path CHR ''/'')) = None"
    and "composeFilesReadable e path"
  shows "\<exists>t ms. ReadTemplateVersion e path s = Inr (t, ms) \<and>
     (case ioutil_ReadDir e (catalogRoot @ path) of
        Inl err \<Rightarrow>
          configFields t = ([], [], [], []) \<and> IconLink t = [] \<and>
          (ErrorLevel, ''Error reading template at path: %s, error: %v'', [path, err])
            \<in> set (written e ms)
      | Inr dirList \<Rightarrow>
          ((\<forall>subfile \<in> set dirList. \<not> HasPrefix (fiName subfile) ''config.yml'') \<longrightarrow>
             configFields t = ([], [], [], []) \<and>
             (DebugLevel, ''Could not find the parent metadata %s'',
               [hd (Split path CHR ''/'')]) \<in> set ms \<and>
             ((DebugLevel, ''Could not find the parent metadata %s'',
               [hd (Split path CHR ''/'')]) \<in> set (written e ms)) = debug e) \<and>
          ((\<forall>subfile \<in> set dirList. \<not> HasPrefix (fiName subfile) ''catalogIcon'') \<longrightarrow>
             IconLink t = [] \<and>
             (DebugLevel, ''Could not find the parent metadata %s'',
               [hd (Split path CHR ''/'')]) \<in> set ms \<and>
             ((DebugLevel, ''Could not find the parent metadata %s'',
               [hd (Split path CHR ''/'')]) \<in> set (written e ms)) = debug e))"
proof -
  from missing_parent_logged[OF assms] obtain t ms where
    r: "ReadTemplateVersion e path s = Inr (t, ms)"
    and c: "(case ioutil_ReadDir e (catalogRoot @ path) of
        Inl err \<Rightarrow>
          configFields t = ([], [], [], []) \<and> IconLink t = [] \<and>
          (ErrorLevel, ''Error reading template at path: %s, error: %v'', [path, err]) \<in> set ms
      | Inr dirList \<Rightarrow>
          ((\<forall>subfile \<in> set dirList. \<not> HasPrefix (fiName subfile) ''config.yml'') \<longrightarrow>
             configFields t = ([], [], [], []) \<and>
             (DebugLevel, ''Could not find the parent metadata %s'',
               [hd (Split path CHR ''/'')]) \<in> set ms) \<and>
          ((\<forall>subfile \<in> set dirList. \<not> HasPrefix (fiName subfile) ''catalogIcon'') \<longrightarrow>
             IconLink t = [] \<and>
             (DebugLevel, ''Could not find the parent metadata %s'',
               [hd (Split path CHR ''/'')]) \<in> set ms))"
    by blast
  show ?thesis
  proof (cases "ioutil_ReadDir e (catalogRoot @ path)")
    case (Inl err)
    with r c show ?thesis by (simp add: written_iff)
  next
    case (Inr dl)
    with r c show ?thesis by (simp add: written_iff)
  qed
qed

text \<open>
  The version \<^verbatim>\<open>w/0\<close> exists and is empty, while the published mapping is the one
  built when the repository had no template; first with the flag \<^verbatim>\<open>-debug\<close> off, then
  with the flag on.
\<close>

theorem C7_missing_parent_leaves_fields_empty_witness:
  "lookup_Catalog emptyServing (hd (Split ''w/0'' CHR ''/'')) = None \<and>
   composeFilesReadable exEnv ''w/0'' \<and>
   ioutil_ReadDir exEnv (catalogRoot @ ''w/0'') = Inr [] \<and>
   (\<exists>t ms. ReadTemplateVersion exEnv ''w/0'' emptyServing = Inr (t, ms) \<and>
      configFields t = ([], [], [], []) \<and> IconLink t = [] \<and>
      (DebugLevel, ''Could not find the parent metadata %s'', [''w'']) \<in> set ms \<and>
      (DebugLevel, ''Could not find the parent metadata %s'', [''w''])
        \<notin> set (written exEnv ms)) \<and>
   (\<exists>t ms. ReadTemplateVersion (exEnv\<lparr> debug := True \<rparr>) ''w/0'' emptyServing = Inr (t, ms) \<and>
      configFields t = ([], [], [], []) \<and> IconLink t = [] \<and>
      (DebugLevel, ''Could not find the parent metadata %s'', [''w''])
        \<in> set (written (exEnv\<lparr> debug := True \<rparr>) ms))"
proof -
  have 1: "lookup_Catalog emptyServing (hd (Split ''w/0'' CHR ''/'')) = None"
    by (simp add: model_defs ex_defs)
  have 2: "composeFilesReadable exEnv ''w/0''"
    by (simp add: model_defs ex_defs)
  have 3: "ioutil_ReadDir exEnv (catalogRoot @ ''w/0'') = Inr []"
    by (simp add: model_defs ex_defs)
  have 4: "hd (Split ''w/0'' CHR ''/'') = ''w''" by simp
  have 5: "\<not> debug exEnv" by (simp add: ex_defs)
  have r2: "composeFilesReadable (exEnv\<lparr> debug := True \<rparr>) ''w/0''"
    by (simp add: model_defs ex_defs)
  have d2: "ioutil_ReadDir (exEnv\<lparr> debug := True \<rparr>) (catalogRoot @ ''w/0'') = Inr []"
    by (simp add: model_defs ex_defs)
  have hOff: "\<exists>t ms. ReadTemplateVersion exEnv ''w/0'' emptyServing = Inr (t, ms) \<and>
      configFields t = ([], [], [], []) \<and> IconLink t = [] \<and>
      (DebugLevel, ''Could not find the parent metadata %s'', [''w'']) \<in> set ms \<and>
      (DebugLevel, ''Could not find the parent metadata %s'', [''w''])
        \<notin> set (written exEnv ms)"
    using C7_missing_parent_leaves_fields_empty[OF 1 2] 3 4 5 by (simp, blast)
  have hOn: "\<exists>t ms. ReadTemplateVersion (exEnv\<lparr> debug := True \<rparr>) ''w/0'' emptyServing = Inr (t, ms) \<and>
      configFields t = ([], [], [], []) \<and> IconLink t = [] \<and>
      (DebugLevel, ''Could not find the parent metadata %s'', [''w''])
        \<in> set (written (exEnv\<lparr> debug := True \<rparr>) ms)"
    using C7_missing_parent_leaves_fields_empty[OF 1 r2] d2 4 by (simp, blast)
  from 1 2 3 hOff hOn show ?thesis by blast
qed


text \<open>
  Claim C4: a version directory with its own configuration file takes name, category,
  description and defaultVersion from that file, and any other version directory
  inherits them from the parent template. The version \<^verbatim>\<open>t/3\<close> holds one file,
  \<^verbatim>\<open>config.yml.bak\<close>, which sets the name \<^verbatim>\<open>Z\<close>; the parent \<^verbatim>\<open>t\<close> has the name
  \<^verbatim>\<open>A\<close> and the category \<^verbatim>\<open>C\<close>. The four fields of the result are empty: neither
  read from the file in the directory nor inherited.
\<close>

theorem C4_backup_config_counterexample:
  "ioutil_ReadDir exEnv (catalogRoot @ ''t/3'') = Inr [fileEntry ''config.yml.bak''] \<and>
   readAt exEnv (catalogRoot @ ''t/3'' @ ''/config.yml.bak'') = Inr ''{name: Z}'' \<and>
   map_sum id fieldsOfConfig (yaml_Unmarshal_config exEnv ''{name: Z}'') = Inr (''Z'', [], [], []) \<and>
   map_option configFields (lookup_Catalog servingState ''t'') = Some (''A'', ''C'', [], []) \<and>
   map_sum id (configFields \<circ> fst) (ReadTemplateVersion exEnv ''t/3'' servingState) =
     Inr ([], [], [], [])"
  by (simp add: model_defs ex_defs)

text \<open>
  Claim C4 as amended: when the listing of the version directory has an entry whose name
  begins with \<^verbatim>\<open>config.yml\<close> and the file \<^verbatim>\<open>config.yml\<close> of that directory is read and
  decoded, the four fields are the values of its keys \<^verbatim>\<open>name\<close>, \<^verbatim>\<open>category\<close>,
  \<^verbatim>\<open>description\<close> and \<^verbatim>\<open>defaultVersion\<close> (empty for a key it lacks); when no entry's
  name begins with \<^verbatim>\<open>config.yml\<close> and the template id has an entry in the published
  mapping, the four fields are those of that entry.
\<close>

theorem C4_own_config_or_inherited:
  assumes "ioutil_ReadDir e (catalogRoot @ path) = Inr dirList"
    and "ReadTemplateVersion e path s = Inr (t, ms)"
  shows "((\<exists>subfile \<in> set dirList. HasPrefix (fiName subfile) ''config.yml'') \<and>
          readAt e (catalogRoot @ path @ ''/config.yml'') = Inr bytes \<and>
          yaml_Unmarshal_config e bytes = Inr config \<longrightarrow>
            configFields t = fieldsOfConfig config) \<and>
         ((\<forall>subfile \<in> set dirList. \<not> HasPrefix (fiName subfile) ''config.yml'') \<and>
          lookup_Catalog s (hd (Split path CHR ''/'')) = Some parent \<longrightarrow>
            configFields t = configFields parent)"
proof -
  from assms obtain t1 fc fi ms1 where
    loop: "versionLoop e path dirList (zeroTemplate\<lparr> Path := path \<rparr>, False, False, []) = Inr (t1, fc, fi, ms1)"
    and flds: "configFields t =
           (if fc then configFields t1
            else case lookup_Catalog s (hd (Split path CHR ''/'')) of
                   None \<Rightarrow> configFields t1 | Some pm \<Rightarrow> configFields pm)"
    by (rule ReadTemplateVersion_listed)
  note fl = versionLoop_flags[OF loop]
  have own: "configFields t = fieldsOfConfig config"
    if "\<exists>subfile \<in> set dirList. HasPrefix (fiName subfile) ''config.yml''"
      and rd: "readAt e (catalogRoot @ path @ ''/config.yml'') = Inr bytes"
      and ym: "yaml_Unmarshal_config e bytes = Inr config"
  proof -
    from fl that(1) have fc by simp
    with versionLoop_fields_ok[OF loop rd ym] flds show ?thesis by simp
  qed
  have inh: "configFields t = configFields parent"
    if "\<forall>subfile \<in> set dirList. \<not> HasPrefix (fiName subfile) ''config.yml''"
      and "lookup_Catalog s (hd (Split path CHR ''/'')) = Some parent"
  proof -
    from fl that(1) have "\<not> fc" by simp
    with flds that(2) show ?thesis by simp
  qed
  from own inh show ?thesis by blast
qed

text \<open>
  The version \<^verbatim>\<open>t/2\<close> has its own \<^verbatim>\<open>config.yml\<close> with the name \<^verbatim>\<open>B\<close>; the version
  \<^verbatim>\<open>t/1\<close> has none and inherits the name \<^verbatim>\<open>A\<close> and the category \<^verbatim>\<open>C\<close>.
\<close>

theorem C4_own_config_or_inherited_witness:
  "ioutil_ReadDir exEnv (catalogRoot @ ''t/2'') =
     Inr [fileEntry ''config.yml'', fileEntry ''rancher-compose.yml''] \<and>
   readAt exEnv (catalogRoot @ ''t/2'' @ ''/config.yml'') = Inr ''{name: B}'' \<and>
   yaml_Unmarshal_config exEnv ''{name: B}'' = Inr [''name'' \<mapsto> ''B''] \<and>
   ioutil_ReadDir exEnv (catalogRoot @ ''t/1'') =
     Inr [fileEntry ''docker-compose.yml'', fileEntry ''rancher-compose.yml''] \<and>
   lookup_Catalog servingState (hd (Split ''t/1'' CHR ''/'')) = Some tplT \<and>
   configFields tplT = (''A'', ''C'', [], []) \<and>
   (\<exists>t ms. ReadTemplateVersion exEnv ''t/2'' servingState = Inr (t, ms) \<and>
            configFields t = (''B'', [], [], [])) \<and>
   (\<exists>t ms. ReadTemplateVersion exEnv ''t/1'' servingState = Inr (t, ms) \<and>
            configFields t = (''A'', ''C'', [], []))"
proof -
  have d2: "ioutil_ReadDir exEnv (catalogRoot @ ''t/2'') =
     Inr [fileEntry ''config.yml'', fileEntry ''rancher-compose.yml'']"
    by (simp add: model_defs ex_defs)
  have r2: "readAt exEnv (catalogRoot @ ''t/2'' @ ''/config.yml'') = Inr ''{name: B}''"
    by (simp add: model_defs ex_defs)
  have y2: "yaml_Unmarshal_config exEnv ''{name: B}'' = Inr [''name'' \<mapsto> ''B'']"
    by (simp add: model_defs ex_defs)
  have p2: "\<exists>subfile \<in> set [fileEntry ''config.yml'', fileEntry ''rancher-compose.yml''].
              HasPrefix (fiName subfile) ''config.yml''"
    by (simp add: model_defs ex_defs)
  have d1: "ioutil_ReadDir exEnv (catalogRoot @ ''t/1'') =
     Inr [fileEntry ''docker-compose.yml'', fileEntry ''rancher-compose.yml'']"
    by (simp add: model_defs ex_defs)
  have p1: "\<forall>subfile \<in> set [fileEntry ''docker-compose.yml'', fileEntry ''rancher-compose.yml''].
              \<not> HasPrefix (fiName subfile) ''config.yml''"
    by (simp add: model_defs ex_defs)
  have l1: "lookup_Catalog servingState (hd (Split ''t/1'' CHR ''/'')) = Some tplT"
    by (simp add: model_defs ex_defs)
  have f1: "configFields tplT = (''A'', ''C'', [], [])"
    by (simp add: model_defs ex_defs)
  have c2: "composeFilesReadable exEnv ''t/2''" by (simp add: model_defs ex_defs)
  have c1: "composeFilesReadable exEnv ''t/1''" by (simp add: model_defs ex_defs)
  obtain t2 ms2 where v2: "ReadTemplateVersion exEnv ''t/2'' servingState = Inr (t2, ms2)"
    using ReadTemplateVersion_returns[OF c2] by blast
  obtain t1 ms1 where v1: "ReadTemplateVersion exEnv ''t/1'' servingState = Inr (t1, ms1)"
    using ReadTemplateVersion_returns[OF c1] by blast
  have "configFields t2 = fieldsOfConfig [''name'' \<mapsto> ''B'']"
    using C4_own_config_or_inherited[OF d2 v2, of "''{name: B}''" "[''name'' \<mapsto> ''B'']"] p2 r2 y2
    by blast
  then have e2: "configFields t2 = (''B'', [], [], [])"
    by (simp add: fieldsOfConfig_def index_str_def)
  have e1: "configFields t1 = (''A'', ''C'', [], [])"
    using C4_own_config_or_inherited[OF d1 v1, of _ _ tplT] p1 l1 f1 by simp
  from d2 r2 y2 d1 l1 f1 v2 e2 v1 e1 show ?thesis by simp
qed







section \<open>Properties of the directory walk\<close>

text \<open>What one call of \<^verbatim>\<open>walkCatalog\<close> does to a state whose map is not nil.\<close>

lemma walkCatalog_discovered:
  assumes "Catalog s = Some m" and "discovered (path, Some f, err)"
  shows "walkCatalog e path (Some f) err s =
           Inr (s\<lparr> Catalog := Some (m(fiName f \<mapsto> fst (newTemplateOf e path f))),
                    logs := logs s @ snd (newTemplateOf e path f) \<rparr>)"
  using assms by (simp add: walkCatalog_def split: prod.splits)

lemma walkCatalog_other:
  assumes "\<not> discovered (path, Some f, err)"
  shows "walkCatalog e path (Some f) err s = Inr s"
  using assms by (auto simp: walkCatalog_def)

lemma walkCatalog_step:
  assumes "walkCatalog e path fo err s = Inr s'" and "Catalog s = Some m"
  shows "Catalog s' = Some (if discovered (path, fo, err)
                            then m(keyOf (path, fo, err) \<mapsto> summaryOf e (path, fo, err)) else m)"
    and "refreshReqChannel s' = refreshReqChannel s" and "calls s' = calls s"
  using assms
  by (auto simp: walkCatalog_def split: option.splits if_splits prod.splits)

lemma walkCalls_effect:
  assumes "walkCalls e cs s = Inr s'" and "Catalog s = Some m"
  shows "Catalog s' = Some (foldl (install e) m cs) \<and>
         refreshReqChannel s' = refreshReqChannel s \<and> calls s' = calls s"
  using assms
proof (induction cs arbitrary: s m)
  case Nil
  then show ?case by simp
next
  case (Cons c cs)
  obtain path fo err where c: "c = (path, fo, err)" by (cases c) auto
  from Cons.prems(1) c obtain s1 where 1: "walkCatalog e path fo err s = Inr s1"
    and 2: "walkCalls e cs s1 = Inr s'"
    by (auto split: sum.splits)
  note st = walkCatalog_step[OF 1 Cons.prems(2)]
  from Cons.IH[OF 2 st(1)] st(2,3) c show ?case by (simp add: install_def)
qed

lemma walkCalls_returns:
  assumes "Catalog s \<noteq> None" and "\<forall>c \<in> set cs. fst (snd c) \<noteq> None"
  shows "\<exists>s'. walkCalls e cs s = Inr s'"
  using assms
proof (induction cs arbitrary: s)
  case Nil
  then show ?case by simp
next
  case (Cons c cs)
  obtain path fo err where c: "c = (path, fo, err)" by (cases c) auto
  from Cons.prems(2) c obtain f where f: "fo = Some f" by auto
  from Cons.prems(1) obtain m where m: "Catalog s = Some m" by auto
  obtain s1 where 1: "walkCatalog e path fo err s = Inr s1"
    using walkCatalog_discovered[OF m, of path f err e] walkCatalog_other[of path f err e s] f
    by (cases "discovered (path, Some f, err)") auto
  from walkCatalog_step(1)[OF 1 m] have "Catalog s1 \<noteq> None" by simp
  from Cons.IH[OF this] Cons.prems(2) obtain s' where "walkCalls e cs s1 = Inr s'" by auto
  with 1 c show ?case by simp
qed

lemma install_add:
  "foldl (install e) (m1 ++ m2) cs = m1 ++ foldl (install e) m2 cs"
  by (induction cs arbitrary: m2)
     (auto simp: install_def map_add_upd[symmetric] simp del: map_add_upd)

lemma install_fresh: "foldl (install e) m cs = m ++ freshMapping e cs"
  using install_add[of e m Map.empty cs] by (simp add: freshMapping_def)

lemma dom_install:
  "dom (foldl (install e) m cs) = dom m \<union> keyOf ` {c \<in> set cs. discovered c}"
  by (induction cs arbitrary: m) (auto simp: install_def)

lemma dom_freshMapping: "dom (freshMapping e cs) = keyOf ` {c \<in> set cs. discovered c}"
  by (simp add: freshMapping_def dom_install)

lemma pullCatalog_keeps:
  "Catalog (pullCatalog e s) = Catalog s"
  "refreshReqChannel (pullCatalog e s) = refreshReqChannel s"
  "calls (pullCatalog e s) = calls s @ [pullCall]"
  by (auto simp: pullCatalog_def pullCall_def Let_def split: option.splits)

lemma cloneCatalog_keeps:
  assumes "cloneCatalog e s = Inr s1"
  shows "refreshReqChannel s1 = refreshReqChannel s"
  using assms by (auto simp: cloneCatalog_def Let_def split: if_splits)

lemma Init_Catalog:
  assumes "Init e s = Inr s'"
  shows "Catalog s' = Some (freshMapping e (filepath_Walk_calls e catalogRoot))"
proof -
  from assms obtain s1 where
    w: "walkCalls e (filepath_Walk_calls e catalogRoot)
          (s1\<lparr> Catalog := Some Map.empty, calls := calls s1 @ [FilepathWalk catalogRoot] \<rparr>) = Inr s'"
    by (auto simp: Init_def filepath_Walk_def split: sum.splits if_splits)
  from walkCalls_effect[OF w, of Map.empty] show ?thesis
    by (simp add: freshMapping_def)
qed

lemma Init_returns:
  assumes "os_Stat_ok e catalogRoot \<or> git_clone_ok e"
    and "\<forall>c \<in> set (filepath_Walk_calls e catalogRoot). fst (snd c) \<noteq> None"
  shows "\<exists>s'. Init e s = Inr s'"
proof -
  have "\<exists>s1. (if \<not> os_Stat_ok e catalogRoot then cloneCatalog e s
            else Inr (pullCatalog e s)) = Inr s1"
    using assms(1) by (cases "os_Stat_ok e catalogRoot") (simp_all add: cloneCatalog_def Let_def)
  then obtain s1 where 1: "(if \<not> os_Stat_ok e catalogRoot then cloneCatalog e s
            else Inr (pullCatalog e s)) = Inr s1" by blast
  obtain s' where "walkCalls e (filepath_Walk_calls e catalogRoot)
          (s1\<lparr> Catalog := Some Map.empty, calls := calls s1 @ [FilepathWalk catalogRoot] \<rparr>) = Inr s'"
    using walkCalls_returns[OF _ assms(2), of "s1\<lparr> Catalog := Some Map.empty, calls := calls s1 @ [FilepathWalk catalogRoot] \<rparr>" e]
    by auto
  with 1 show ?thesis by (simp add: Init_def filepath_Walk_def)
qed

text \<open>An admitted refresh: one pull, one walk over the map as it stands, the gate freed.\<close>

lemma RefreshCatalog_admitted:
  assumes "refreshReqChannel s = []" and "RefreshCatalog e s = Inr s'" and "Catalog s = Some m"
  shows "Catalog s' = Some (m ++ freshMapping e (filepath_Walk_calls e catalogRoot))"
    and "refreshReqChannel s' = []"
    and "calls s' = calls s @ [pullCall, walkCall]"
proof -
  let ?s2 = "pullCatalog e (s\<lparr> refreshReqChannel := [1] \<rparr>)"
  from assms(1,2) obtain s3 where
    w: "walkCalls e (filepath_Walk_calls e catalogRoot)
          (?s2\<lparr> calls := calls ?s2 @ [FilepathWalk catalogRoot] \<rparr>) = Inr s3"
    and r: "(case refreshReqChannel s3 of [] \<Rightarrow> Inl BlockedForever
             | x # rest \<Rightarrow> Inr (s3\<lparr> refreshReqChannel := rest \<rparr>)) = Inr s'"
    by (auto simp: RefreshCatalog_def filepath_Walk_def Let_def split: sum.splits)
  have c2: "Catalog (?s2\<lparr> calls := calls ?s2 @ [FilepathWalk catalogRoot] \<rparr>) = Some m"
    using assms(3) by (simp add: pullCatalog_keeps)
  from walkCalls_effect[OF w c2]
  have 3: "Catalog s3 = Some (m ++ freshMapping e (filepath_Walk_calls e catalogRoot))"
    "refreshReqChannel s3 = [1]" "calls s3 = calls s @ [pullCall, walkCall]"
    by (simp_all add: pullCatalog_keeps install_fresh walkCall_def)
  from r 3 show "Catalog s' = Some (m ++ freshMapping e (filepath_Walk_calls e catalogRoot))"
    and "refreshReqChannel s' = []" and "calls s' = calls s @ [pullCall, walkCall]"
    by auto
qed

lemma RefreshCatalog_returns:
  assumes "refreshReqChannel s = []" and "Catalog s \<noteq> None"
    and "\<forall>c \<in> set (filepath_Walk_calls e catalogRoot). fst (snd c) \<noteq> None"
  shows "\<exists>s'. RefreshCatalog e s = Inr s'"
proof -
  let ?s2 = "pullCatalog e (s\<lparr> refreshReqChannel := [1] \<rparr>)"
  let ?s2' = "?s2\<lparr> calls := calls ?s2 @ [FilepathWalk catalogRoot] \<rparr>"
  from assms(2) obtain m where m: "Catalog ?s2' = Some m" by (auto simp: pullCatalog_keeps)
  then have "Catalog ?s2' \<noteq> None" by simp
  from walkCalls_returns[OF this assms(3)] obtain s3 where
    w: "walkCalls e (filepath_Walk_calls e catalogRoot) ?s2' = Inr s3" by blast
  from walkCalls_effect[OF w m] have "refreshReqChannel s3 = [1]"
    by (simp add: pullCatalog_keeps)
  with w assms(1) show ?thesis
    by (simp add: RefreshCatalog_def filepath_Walk_def Let_def)
qed


section \<open>The claims about the rebuild\<close>

text \<open>The walks of the two trees.\<close>

lemma Init_exEnv: "map_sum id Catalog (Init exEnv startState) = Inr (Some exCatalog)"
  by (simp add: model_defs ex_defs)

lemma fresh_emptyEnv: "freshMapping emptyEnv (filepath_Walk_calls emptyEnv catalogRoot) = Map.empty"
  by (simp add: freshMapping_def install_def model_defs ex_defs)

lemma fresh_exEnv: "freshMapping exEnv (filepath_Walk_calls exEnv catalogRoot) = exCatalog"
  by (simp add: freshMapping_def install_def model_defs ex_defs)

text \<open>
  Claim C1: every rebuild produces a freshly built mapping that holds exactly the
  summaries discovered in its walk and replaces the published mapping with it, so that
  the entry of a template directory that is gone does not survive. \<^verbatim>\<open>RefreshCatalog\<close>
  walks over the published mapping as it stands. After \<^verbatim>\<open>Init\<close> on the catalog of
  three templates, a refresh at a time when the repository has no template left
  discovers nothing and leaves all three entries in the published mapping.
\<close>

theorem C1_stale_entry_counterexample:
  "map_sum id Catalog (Init exEnv startState) = Inr (Some exCatalog) \<and>
   exCatalog ''t'' = Some tplT \<and>
   freshMapping emptyEnv (filepath_Walk_calls emptyEnv catalogRoot) = Map.empty \<and>
   map_sum id Catalog (RefreshCatalog emptyEnv (projr (Init exEnv startState))) =
     Inr (Some exCatalog)"
proof -
  have "map_sum id Catalog (RefreshCatalog emptyEnv (projr (Init exEnv startState))) =
     Inr (Some exCatalog)"
    by (simp add: model_defs ex_defs)
  moreover have "exCatalog ''t'' = Some tplT" by (simp add: exCatalog_def)
  ultimately show ?thesis using Init_exEnv fresh_emptyEnv by simp
qed

text \<open>
  Claim C1 as amended: every rebuild installs in the published mapping, under the name of
  the directory, the summary of each template directory its walk discovers (the keys of
  the mapping built from nothing are exactly the names of the discovered directories).
  \<^verbatim>\<open>Init\<close> starts from an empty mapping, so that after it the published mapping is
  exactly that mapping; after an admitted refresh the published mapping agrees with it
  on every discovered key. Both return when the walk has a \<^verbatim>\<open>FileInfo\<close> for every entry
  (for \<^verbatim>\<open>Init\<close>: and the tree exists or the clone succeeds; for the refresh: and the
  map is not nil).
\<close>

theorem C1_rebuild_installs_discovered:
  "dom (freshMapping e (filepath_Walk_calls e catalogRoot)) =
     keyOf ` {c \<in> set (filepath_Walk_calls e catalogRoot). discovered c} \<and>
   (Init e s = Inr s' \<longrightarrow>
      Catalog s' = Some (freshMapping e (filepath_Walk_calls e catalogRoot))) \<and>
   (refreshReqChannel s = [] \<and> RefreshCatalog e s = Inr s'' \<longrightarrow>
      (\<forall>key \<in> dom (freshMapping e (filepath_Walk_calls e catalogRoot)).
         lookup_Catalog s'' key = freshMapping e (filepath_Walk_calls e catalogRoot) key)) \<and>
   ((\<forall>c \<in> set (filepath_Walk_calls e catalogRoot). fst (snd c) \<noteq> None) \<longrightarrow>
      (os_Stat_ok e catalogRoot \<or> git_clone_ok e \<longrightarrow> (\<exists>s1. Init e s = Inr s1)) \<and>
      (refreshReqChannel s = [] \<and> Catalog s \<noteq> None \<longrightarrow> (\<exists>s2. RefreshCatalog e s = Inr s2)))"
proof (intro conjI impI)
  show "dom (freshMapping e (filepath_Walk_calls e catalogRoot)) =
     keyOf ` {c \<in> set (filepath_Walk_calls e catalogRoot). discovered c}"
    by (rule dom_freshMapping)
next
  assume "Init e s = Inr s'"
  then show "Catalog s' = Some (freshMapping e (filepath_Walk_calls e catalogRoot))"
    by (rule Init_Catalog)
next
  assume a: "refreshReqChannel s = [] \<and> RefreshCatalog e s = Inr s''"
  show "\<forall>key \<in> dom (freshMapping e (filepath_Walk_calls e catalogRoot)).
         lookup_Catalog s'' key = freshMapping e (filepath_Walk_calls e catalogRoot) key"
  proof (cases "Catalog s")
    case None
    let ?s2 = "pullCatalog e (s\<lparr> refreshReqChannel := [1] \<rparr>)"
    let ?s2' = "?s2\<lparr> calls := calls ?s2 @ [FilepathWalk catalogRoot] \<rparr>"
    from a obtain s3 where
      w: "walkCalls e (filepath_Walk_calls e catalogRoot) ?s2' = Inr s3"
      by (auto simp: RefreshCatalog_def filepath_Walk_def Let_def split: sum.splits)
    have n: "Catalog ?s2' = None" using None by (simp add: pullCatalog_keeps)
    have "\<forall>c \<in> set cs. \<not> discovered c" if "walkCalls e cs u = Inr s3" "Catalog u = None" for cs u
      using that
    proof (induction cs arbitrary: u)
      case Nil
      then show ?case by simp
    next
      case (Cons c cs)
      obtain path fo err where c: "c = (path, fo, err)" by (cases c) auto
      from Cons.prems(1) c obtain u1 where 1: "walkCatalog e path fo err u = Inr u1"
        and 2: "walkCalls e cs u1 = Inr s3"
        by (auto split: sum.splits)
      from 1 Cons.prems(2) have "\<not> discovered c \<and> u1 = u"
        unfolding c by (cases fo) (auto simp: walkCatalog_def split: if_splits prod.splits)
      with Cons.IH[OF 2] Cons.prems(2) show ?case by simp
    qed
    from this[OF w n] have "{c \<in> set (filepath_Walk_calls e catalogRoot). discovered c} = {}"
      by blast
    then have "dom (freshMapping e (filepath_Walk_calls e catalogRoot)) = {}"
      by (simp add: dom_freshMapping)
    then show ?thesis by simp
  next
    case (Some m)
    from a have "Catalog s'' = Some (m ++ freshMapping e (filepath_Walk_calls e catalogRoot))"
      using RefreshCatalog_admitted(1)[OF _ _ Some] by blast
    then show ?thesis
      by (auto simp: lookup_Catalog_def map_add_def split: option.splits)
  qed
next
  assume "\<forall>c \<in> set (filepath_Walk_calls e catalogRoot). fst (snd c) \<noteq> None"
    and "os_Stat_ok e catalogRoot \<or> git_clone_ok e"
  then show "\<exists>s1. Init e s = Inr s1" using Init_returns by blast
next
  assume "\<forall>c \<in> set (filepath_Walk_calls e catalogRoot). fst (snd c) \<noteq> None"
    and "refreshReqChannel s = [] \<and> Catalog s \<noteq> None"
  then show "\<exists>s2. RefreshCatalog e s = Inr s2" using RefreshCatalog_returns by blast
qed


text \<open>
  \<^verbatim>\<open>Init\<close> on the catalog of three templates, and a refresh on that catalog of a
  process that has served the empty repository so far.
\<close>

theorem C1_rebuild_installs_discovered_witness:
  "None \<notin> set (map (fst \<circ> snd) (filepath_Walk_calls exEnv catalogRoot)) \<and>
   (os_Stat_ok exEnv catalogRoot \<or> git_clone_ok exEnv) \<and>
   refreshReqChannel emptyServing = [] \<and> Catalog emptyServing \<noteq> None \<and>
   freshMapping exEnv (filepath_Walk_calls exEnv catalogRoot) = exCatalog \<and>
   dom exCatalog = {''t'', ''u'', ''w''} \<and>
   (\<exists>s1. Init exEnv startState = Inr s1 \<and> Catalog s1 = Some exCatalog) \<and>
   (\<exists>s2. RefreshCatalog exEnv emptyServing = Inr s2 \<and>
      lookup_Catalog s2 ''t'' = Some tplT \<and> lookup_Catalog s2 ''u'' = Some tplU \<and>
      lookup_Catalog s2 ''w'' = Some tplW)"
proof -
  have h1: "\<forall>c \<in> set (filepath_Walk_calls exEnv catalogRoot). fst (snd c) \<noteq> None"
    by (simp add: ex_defs)
  have h2: "os_Stat_ok exEnv catalogRoot \<or> git_clone_ok exEnv" by (simp add: ex_defs)
  have h3: "refreshReqChannel emptyServing = [] \<and> Catalog emptyServing \<noteq> None"
    by (simp add: ex_defs)
  have d: "dom exCatalog = {''t'', ''u'', ''w''}" by (auto simp: exCatalog_def)
  note a = C1_rebuild_installs_discovered[of exEnv startState, unfolded fresh_exEnv]
  note b = C1_rebuild_installs_discovered[of exEnv emptyServing, unfolded fresh_exEnv]
  from a h1 h2 obtain s1 where i: "Init exEnv startState = Inr s1" by blast
  from a[of s1] i have i': "Catalog s1 = Some exCatalog" by blast
  from b h1 h3 obtain s2 where r: "RefreshCatalog exEnv emptyServing = Inr s2" by blast
  from b[of _ s2] have "refreshReqChannel emptyServing = [] \<and>
      RefreshCatalog exEnv emptyServing = Inr s2 \<longrightarrow>
      (\<forall>key \<in> dom exCatalog. lookup_Catalog s2 key = exCatalog key)"
    by blast
  with r h3 have "\<forall>key \<in> dom exCatalog. lookup_Catalog s2 key = exCatalog key" by blast
  then have "\<forall>key \<in> {''t'', ''u'', ''w''}. lookup_Catalog s2 key = exCatalog key"
    by (simp only: d)
  then have r': "lookup_Catalog s2 ''t'' = Some tplT \<and> lookup_Catalog s2 ''u'' = Some tplU \<and>
      lookup_Catalog s2 ''w'' = Some tplW"
    by (simp add: exCatalog_def)
  have h0: "None \<notin> set (map (fst \<circ> snd) (filepath_Walk_calls exEnv catalogRoot))"
    by (simp add: ex_defs)
  from h0 h2 h3 d i i' r r' fresh_exEnv show ?thesis by blast
qed

text \<open>
  Claim C8: a template directory whose listing cannot be read is left out of the index.
  The directory \<^verbatim>\<open>u\<close> cannot be listed, and after \<^verbatim>\<open>Init\<close> the index has an entry for
  it, with the name read from its configuration file and no version links.
\<close>

theorem C8_unlisted_template_counterexample:
  "ioutil_ReadDir exEnv ''DATA/templates/u'' = Inl ''cannot list'' \<and>
   discovered (''DATA/templates/u'', Some (dirEntry ''u''), None) \<and>
   map_sum id Catalog (Init exEnv startState) = Inr (Some exCatalog) \<and>
   exCatalog ''u'' = Some tplU \<and> Name tplU = ''U''"
  using Init_exEnv by (simp add: model_defs ex_defs)

text \<open>
  Claim C8 as amended: a template directory whose listing cannot be read is installed in
  the index under its name, with no version links and no icon and with the name,
  category, description and defaultVersion that its \<^verbatim>\<open>config.yml\<close> gives (none if that
  cannot be read either); the failure is logged, and the walk goes on with its
  remaining calls.
\<close>

theorem C8_unlisted_template_is_installed:
  assumes "fiIsDir f" and "metadataFolder_MatchString path"
    and "ioutil_ReadDir e path = Inl msg"
    and "Catalog s = Some m"
  shows "\<exists>s'. walkCatalog e path (Some f) err s = Inr s' \<and>
           lookup_Catalog s' (fiName f) =
             Some ((fst (readTemplateConfig e path (zeroTemplate\<lparr> Path := fiName f \<rparr>)))
                     \<lparr> VersionLinks := Map.empty \<rparr>) \<and>
           (ErrorLevel, ''Error reading directories at path: %s, error: %v'', [fiName f, msg])
             \<in> set (logs s') \<and>
           (\<forall>cs. walkCalls e ((path, Some f, err) # cs) s = walkCalls e cs s')"
proof -
  have d: "discovered (path, Some f, err)" using assms(1,2) by simp
  have nt: "newTemplateOf e path f =
      ((fst (readTemplateConfig e path (zeroTemplate\<lparr> Path := fiName f \<rparr>)))\<lparr> VersionLinks := Map.empty \<rparr>,
       [(DebugLevel, ''Reading metadata folder for template:%s'', [fiName f])] @
       snd (readTemplateConfig e path (zeroTemplate\<lparr> Path := fiName f \<rparr>)) @
       [(ErrorLevel, ''Error reading directories at path: %s, error: %v'', [fiName f, msg])])"
    using assms(3) by (simp add: newTemplateOf_def Let_def split: prod.splits)
  show ?thesis
    using walkCatalog_discovered[OF assms(4) d, of e] nt
    by (simp add: lookup_Catalog_def)
qed

text \<open>The directory \<^verbatim>\<open>u\<close>, followed in the walk by the directory \<^verbatim>\<open>w\<close>.\<close>

theorem C8_unlisted_template_is_installed_witness:
  "fiIsDir (dirEntry ''u'') \<and> metadataFolder_MatchString ''DATA/templates/u'' \<and>
   ioutil_ReadDir exEnv ''DATA/templates/u'' = Inl ''cannot list'' \<and>
   Catalog emptyServing = Some Map.empty \<and>
   (\<exists>s'. walkCatalog exEnv ''DATA/templates/u'' (Some (dirEntry ''u'')) None emptyServing = Inr s' \<and>
      lookup_Catalog s' ''u'' = Some tplU \<and>
      (ErrorLevel, ''Error reading directories at path: %s, error: %v'', [''u'', ''cannot list''])
        \<in> set (logs s') \<and>
      walkCalls exEnv [(''DATA/templates/u'', Some (dirEntry ''u''), None),
                       (''DATA/templates/w'', Some (dirEntry ''w''), None)] emptyServing =
        walkCalls exEnv [(''DATA/templates/w'', Some (dirEntry ''w''), None)] s')"
proof -
  have 1: "fiIsDir (dirEntry ''u'')" by (simp add: ex_defs)
  have 2: "metadataFolder_MatchString ''DATA/templates/u''" by (simp add: model_defs)
  have 3: "ioutil_ReadDir exEnv ''DATA/templates/u'' = Inl ''cannot list''"
    by (simp add: model_defs ex_defs)
  have 4: "Catalog emptyServing = Some Map.empty" by (simp add: ex_defs)
  have 5: "(fst (readTemplateConfig exEnv ''DATA/templates/u''
               (zeroTemplate\<lparr> Path := ''u'' \<rparr>)))\<lparr> VersionLinks := Map.empty \<rparr> = tplU"
    by (simp add: model_defs ex_defs)
  have 6: "fiName (dirEntry ''u'') = ''u''" by (simp add: ex_defs)
  from C8_unlisted_template_is_installed[OF 1 2 3 4, of None]
  obtain s' where
    "walkCatalog exEnv ''DATA/templates/u'' (Some (dirEntry ''u'')) None emptyServing = Inr s'"
    "lookup_Catalog s' ''u'' = Some tplU"
    "(ErrorLevel, ''Error reading directories at path: %s, error: %v'', [''u'', ''cannot list''])
        \<in> set (logs s')"
    "\<forall>cs. walkCalls exEnv ((''DATA/templates/u'', Some (dirEntry ''u''), None) # cs) emptyServing =
        walkCalls exEnv cs s'"
    unfolding 6 5 by blast
  with 1 2 3 4 show ?thesis by blast
qed


section \<open>Properties of concurrent refreshes\<close>

subsection \<open>Filtering a list after an update\<close>

lemma filter_update_same:
  "i < length ps \<Longrightarrow> \<not> P (ps ! i) \<Longrightarrow> \<not> P q \<Longrightarrow> filter P (ps[i := q]) = filter P ps"
proof (induction ps arbitrary: i)
  case Nil
  then show ?case by simp
next
  case (Cons p ps)
  then show ?case by (cases i) auto
qed

lemma filter_update_none:
  "i < length ps \<Longrightarrow> filter P ps = [] \<Longrightarrow> filter P (ps[i := q]) = (if P q then [q] else [])"
proof (induction ps arbitrary: i)
  case Nil
  then show ?case by simp
next
  case (Cons p ps)
  then show ?case by (cases i) (auto split: if_splits)
qed

lemma filter_update_single:
  "i < length ps \<Longrightarrow> length (filter P ps) \<le> 1 \<Longrightarrow> P (ps ! i) \<Longrightarrow>
     filter P ps = [ps ! i] \<and> filter P (ps[i := q]) = (if P q then [q] else [])"
proof (induction ps arbitrary: i)
  case Nil
  then show ?case by simp
next
  case (Cons p ps)
  show ?case
  proof (cases i)
    case 0
    with Cons.prems show ?thesis by (auto split: if_splits)
  next
    case (Suc j)
    with Cons.prems have pj: "P (ps ! j)" and j: "j < length ps" by auto
    then have "\<exists>x \<in> set ps. P x" by auto
    then have ne: "filter P ps \<noteq> []" by (simp add: filter_empty_conv)
    with Cons.prems(2) have np: "\<not> P p" by (cases "filter P ps") (auto split: if_splits)
    with Cons.prems(2) have "length (filter P ps) \<le> 1" by simp
    from Cons.IH[OF j this pj] np Suc show ?thesis by simp
  qed
qed

lemma count_update_leave:
  "i < length ps \<Longrightarrow> ps ! i = p \<Longrightarrow> p \<noteq> q \<Longrightarrow>
     Suc (length (filter (\<lambda>x. x = p) (ps[i := q]))) = length (filter (\<lambda>x. x = p) ps)"
proof (induction ps arbitrary: i)
  case Nil
  then show ?case by simp
next
  case (Cons a ps)
  show ?case
  proof (cases i)
    case 0
    with Cons.prems show ?thesis by auto
  next
    case (Suc j)
    with Cons.prems Cons.IH[of j] show ?thesis by auto
  qed
qed

lemma count_update_enter:
  "i < length ps \<Longrightarrow> ps ! i \<noteq> q \<Longrightarrow>
     length (filter (\<lambda>x. x = q) (ps[i := q])) = Suc (length (filter (\<lambda>x. x = q) ps))"
proof (induction ps arbitrary: i)
  case Nil
  then show ?case by simp
next
  case (Cons a ps)
  show ?case
  proof (cases i)
    case 0
    with Cons.prems show ?thesis by auto
  next
    case (Suc j)
    with Cons.prems Cons.IH[of j] show ?thesis by auto
  qed
qed

lemma concat_replicate_comm: "concat (replicate n xs) @ xs = xs @ concat (replicate n xs)"
  by (induction n) auto


subsection \<open>The log and the calls at each step\<close>

lemma readTemplateConfig_no_skip: "skipRecord \<notin> set (snd (readTemplateConfig e rp t))"
  by (auto simp: readTemplateConfig_def skipRecord_def split: sum.splits prod.splits)

lemma newTemplateOf_no_skip: "skipRecord \<notin> set (snd (newTemplateOf e path f))"
  using readTemplateConfig_no_skip[of e path "zeroTemplate\<lparr> Path := fiName f \<rparr>"]
  by (auto simp: newTemplateOf_def Let_def skipRecord_def split: sum.splits prod.splits)

lemma pullCatalog_skips: "skipsLogged (pullCatalog e s) = skipsLogged s"
  by (auto simp: pullCatalog_def skipsLogged_def skipRecord_def Let_def split: option.splits)

lemma walkCatalog_skips:
  assumes "walkCatalog e path fo err s = Inr s'"
  shows "skipsLogged s' = skipsLogged s"
proof (cases fo)
  case None
  with assms show ?thesis by (simp add: walkCatalog_def)
next
  case (Some f)
  show ?thesis
  proof (cases "discovered (path, Some f, err)")
    case True
    with assms Some newTemplateOf_no_skip[of e path f] show ?thesis
      by (auto simp: walkCatalog_def skipsLogged_def filter_empty_conv
               split: prod.splits option.splits)
  next
    case False
    with assms Some show ?thesis using walkCatalog_other[OF False, of e s] by simp
  qed
qed

lemma walkCatalog_keeps:
  assumes "walkCatalog e path fo err s = Inr s'"
  shows "refreshReqChannel s' = refreshReqChannel s" and "calls s' = calls s"
  using assms
  by (auto simp: walkCatalog_def split: option.splits if_splits prod.splits)

subsection \<open>The gate\<close>

lemma gateInv_triggered:
  assumes "refreshReqChannel s0 = []"
  shows "gateInv s0 (triggered n s0)"
  using assms
  by (simp add: gateInv_def triggered_def inFlightPcs_def doneCount_def skippedCount_def)

lemma gateInv_step:
  assumes inv: "gateInv s0 cfg"
  shows "gateInv s0 (schedStep e cfg i)"
proof (cases "crashed cfg \<noteq> None \<or> length (pcs cfg) \<le> i")
  case True
  with inv show ?thesis by (simp add: schedStep_def)
next
  case False
  then have i: "i < length (pcs cfg)" and nc: "crashed cfg = None" by auto
  let ?ps = "pcs cfg" and ?s = "shared cfg"
  from inv have F1: "length (filter inFlight ?ps) \<le> 1"
    and CH: "length (refreshReqChannel ?s) = length (filter inFlight ?ps)"
    and CL: "calls ?s = calls s0 @
        concat (replicate (length (filter (\<lambda>p. p = Done) ?ps)) [pullCall, walkCall]) @
        concat (map callsAt (filter inFlight ?ps))"
    and SK: "skipsLogged ?s = skipsLogged s0 + length (filter (\<lambda>p. p = Skipped) ?ps)"
    by (simp_all add: gateInv_def inFlightPcs_def doneCount_def skippedCount_def)
  note defs = gateInv_def inFlightPcs_def doneCount_def skippedCount_def schedStep_def
  show ?thesis
  proof (cases "?ps ! i")
    case AtSelect
    show ?thesis
    proof (cases "refreshReqChannel ?s")
      case Nil
      with CH have F0: "filter inFlight ?ps = []" by simp
      have a: "filter inFlight (?ps[i := AtPull]) = [AtPull]"
        using filter_update_none[OF i F0, of AtPull] by simp
      have b: "filter (\<lambda>p. p = Done) (?ps[i := AtPull]) = filter (\<lambda>p. p = Done) ?ps"
        using filter_update_same[OF i, of "\<lambda>p. p = Done" AtPull] AtSelect by simp
      have c: "filter (\<lambda>p. p = Skipped) (?ps[i := AtPull]) = filter (\<lambda>p. p = Skipped) ?ps"
        using filter_update_same[OF i, of "\<lambda>p. p = Skipped" AtPull] AtSelect by simp
      from AtSelect Nil False a b c F0 CL SK show ?thesis
        by (simp add: defs skipsLogged_def)
    next
      case (Cons x rest)
      have a: "filter inFlight (?ps[i := Skipped]) = filter inFlight ?ps"
        using filter_update_same[OF i, of inFlight Skipped] AtSelect by simp
      have b: "filter (\<lambda>p. p = Done) (?ps[i := Skipped]) = filter (\<lambda>p. p = Done) ?ps"
        using filter_update_same[OF i, of "\<lambda>p. p = Done" Skipped] AtSelect by simp
      have c: "length (filter (\<lambda>p. p = Skipped) (?ps[i := Skipped])) =
               Suc (length (filter (\<lambda>p. p = Skipped) ?ps))"
        using count_update_enter[OF i, of Skipped] AtSelect by simp
      have ss: "schedStep e cfg i =
          cfg\<lparr> shared := ?s\<lparr> logs := logs ?s @ [skipRecord] \<rparr>, pcs := ?ps[i := Skipped] \<rparr>"
        using AtSelect Cons False by (simp add: schedStep_def skipRecord_def)
      from a b c F1 CH CL SK show ?thesis
        unfolding ss by (simp add: gateInv_def inFlightPcs_def doneCount_def skippedCount_def skipsLogged_def)
    qed
  next
    case AtPull
    then have P: "inFlight (?ps ! i)" by simp
    from filter_update_single[OF i F1 P, of AtWalk] AtPull
    have a: "filter inFlight ?ps = [AtPull]" "filter inFlight (?ps[i := AtWalk]) = [AtWalk]"
      by simp_all
    have b: "filter (\<lambda>p. p = Done) (?ps[i := AtWalk]) = filter (\<lambda>p. p = Done) ?ps"
      using filter_update_same[OF i, of "\<lambda>p. p = Done" AtWalk] AtPull by simp
    have c: "filter (\<lambda>p. p = Skipped) (?ps[i := AtWalk]) = filter (\<lambda>p. p = Skipped) ?ps"
      using filter_update_same[OF i, of "\<lambda>p. p = Skipped" AtWalk] AtPull by simp
    from AtPull False a b c CH CL SK show ?thesis
      by (simp add: defs pullCatalog_keeps pullCatalog_skips)
  next
    case AtWalk
    then have P: "inFlight (?ps ! i)" by simp
    let ?q = "Walking (filepath_Walk_calls e catalogRoot)"
    from filter_update_single[OF i F1 P, of ?q] AtWalk
    have a: "filter inFlight ?ps = [AtWalk]" "filter inFlight (?ps[i := ?q]) = [?q]"
      by simp_all
    have b: "filter (\<lambda>p. p = Done) (?ps[i := ?q]) = filter (\<lambda>p. p = Done) ?ps"
      using filter_update_same[OF i, of "\<lambda>p. p = Done" ?q] AtWalk by simp
    have c: "filter (\<lambda>p. p = Skipped) (?ps[i := ?q]) = filter (\<lambda>p. p = Skipped) ?ps"
      using filter_update_same[OF i, of "\<lambda>p. p = Skipped" ?q] AtWalk by simp
    from AtWalk False a b c CH CL SK show ?thesis
      by (simp add: defs walkCall_def skipsLogged_def)
  next
    case (Walking cs)
    then have P: "inFlight (?ps ! i)" by simp
    show ?thesis
    proof (cases cs)
      case Nil
      from filter_update_single[OF i F1 P, of AtReceive] Walking
      have a: "filter inFlight ?ps = [Walking cs]" "filter inFlight (?ps[i := AtReceive]) = [AtReceive]"
        by simp_all
      have b: "filter (\<lambda>p. p = Done) (?ps[i := AtReceive]) = filter (\<lambda>p. p = Done) ?ps"
        using filter_update_same[OF i, of "\<lambda>p. p = Done" AtReceive] Walking by simp
      have c: "filter (\<lambda>p. p = Skipped) (?ps[i := AtReceive]) = filter (\<lambda>p. p = Skipped) ?ps"
        using filter_update_same[OF i, of "\<lambda>p. p = Skipped" AtReceive] Walking by simp
      from Walking Nil False a b c CH CL SK show ?thesis
        by (simp add: defs)
    next
      case (Cons c1 cs1)
      obtain path fo err where c1: "c1 = (path, fo, err)" by (cases c1) auto
      show ?thesis
      proof (cases "walkCatalog e path fo err ?s")
        case (Inl cr)
        with Walking Cons c1 False inv show ?thesis by (simp add: defs)
      next
        case (Inr s')
        from filter_update_single[OF i F1 P, of "Walking cs1"] Walking
        have a: "filter inFlight ?ps = [Walking cs]" "filter inFlight (?ps[i := Walking cs1]) = [Walking cs1]"
          by simp_all
        have b: "filter (\<lambda>p. p = Done) (?ps[i := Walking cs1]) = filter (\<lambda>p. p = Done) ?ps"
          using filter_update_same[OF i, of "\<lambda>p. p = Done" "Walking cs1"] Walking by simp
        have c: "filter (\<lambda>p. p = Skipped) (?ps[i := Walking cs1]) = filter (\<lambda>p. p = Skipped) ?ps"
          using filter_update_same[OF i, of "\<lambda>p. p = Skipped" "Walking cs1"] Walking by simp
        from Walking Cons c1 Inr False a b c CH CL SK
          walkCatalog_keeps[OF Inr] walkCatalog_skips[OF Inr]
        show ?thesis by (simp add: defs)
      qed
    qed
  next
    case AtReceive
    then have P: "inFlight (?ps ! i)" by simp
    from filter_update_single[OF i F1 P, of Done] AtReceive
    have a: "filter inFlight ?ps = [AtReceive]" "filter inFlight (?ps[i := Done]) = []"
      by simp_all
    have b: "length (filter (\<lambda>p. p = Done) (?ps[i := Done])) = Suc (length (filter (\<lambda>p. p = Done) ?ps))"
      using count_update_enter[OF i, of Done] AtReceive by simp
    have c: "filter (\<lambda>p. p = Skipped) (?ps[i := Done]) = filter (\<lambda>p. p = Skipped) ?ps"
      using filter_update_same[OF i, of "\<lambda>p. p = Skipped" Done] AtReceive by simp
    from CH a obtain x where ch: "refreshReqChannel ?s = [x]"
      by (cases "refreshReqChannel ?s") auto
    from AtReceive False a b c ch CL SK
      concat_replicate_comm[of "length (filter (\<lambda>p. p = Done) ?ps)" "[pullCall, walkCall]"]
    show ?thesis
      by (simp add: defs skipsLogged_def)
  next
    case Done
    with False inv show ?thesis by (simp add: defs)
  next
    case Skipped
    with False inv show ?thesis by (simp add: defs)
  qed
qed

lemma gateInv_run:
  assumes "gateInv s0 cfg"
  shows "gateInv s0 (run e sched cfg)"
  using assms unfolding run_def
  by (induction sched arbitrary: cfg) (auto intro: gateInv_step)

lemma length_pcs_step: "length (pcs (schedStep e cfg i)) = length (pcs cfg)"
  by (auto simp: schedStep_def split: outcome.splits)

lemma length_pcs_run: "length (pcs (run e sched cfg)) = length (pcs cfg)"
  unfolding run_def by (induction sched arbitrary: cfg) (auto simp: length_pcs_step)


subsection \<open>One goroutine alone\<close>

lemma run_append: "run e (xs @ ys) cfg = run e ys (run e xs cfg)"
  by (simp add: run_def)

lemma run_Cons: "run e (i # sched) cfg = run e sched (schedStep e cfg i)"
  by (simp add: run_def)

lemma walkCalls_keeps:
  assumes "walkCalls e cs s = Inr s'"
  shows "refreshReqChannel s' = refreshReqChannel s \<and> calls s' = calls s"
  using assms
proof (induction cs arbitrary: s)
  case Nil
  then show ?case by simp
next
  case (Cons c cs)
  obtain path fo err where c: "c = (path, fo, err)" by (cases c) auto
  from Cons.prems c obtain s1 where 1: "walkCatalog e path fo err s = Inr s1"
    and 2: "walkCalls e cs s1 = Inr s'"
    by (auto split: sum.splits)
  from Cons.IH[OF 2] walkCatalog_keeps[OF 1] show ?case by simp
qed

lemma replicate_two: "replicate n x @ [x, x] = x # x # replicate n x"
  by (induction n) auto

lemma run_walking:
  assumes "walkCalls e cs u = Inr u'"
  shows "run e (replicate (length cs) 0) \<lparr> shared = u, pcs = [Walking cs], crashed = None \<rparr> =
           \<lparr> shared = u', pcs = [Walking []], crashed = None \<rparr>"
  using assms
proof (induction cs arbitrary: u)
  case Nil
  then show ?case by (simp add: run_def)
next
  case (Cons c cs)
  obtain path fo err where c: "c = (path, fo, err)" by (cases c) auto
  from Cons.prems c obtain u1 where 1: "walkCatalog e path fo err u = Inr u1"
    and 2: "walkCalls e cs u1 = Inr u'"
    by (auto split: sum.splits)
  have "schedStep e \<lparr> shared = u, pcs = [Walking (c # cs)], crashed = None \<rparr> 0 =
          \<lparr> shared = u1, pcs = [Walking cs], crashed = None \<rparr>"
    using 1 c by (simp add: schedStep_def)
  with Cons.IH[OF 2] show ?case by (simp add: run_Cons)
qed

text \<open>
  A goroutine that runs \<^verbatim>\<open>RefreshCatalog\<close> alone, step by step, ends in the state
  that the function run without interruption returns.
\<close>

lemma run_alone:
  assumes "RefreshCatalog e s = Inr s'" and "refreshReqChannel s = []"
  shows "run e (replicate (length (filepath_Walk_calls e catalogRoot) + 5) 0) (triggered 1 s) =
           \<lparr> shared = s', pcs = [Done], crashed = None \<rparr>"
proof -
  let ?W = "filepath_Walk_calls e catalogRoot"
  let ?s2 = "pullCatalog e (s\<lparr> refreshReqChannel := [1] \<rparr>)"
  let ?s2' = "?s2\<lparr> calls := calls ?s2 @ [FilepathWalk catalogRoot] \<rparr>"
  from assms obtain s3 where
    w: "walkCalls e ?W ?s2' = Inr s3"
    and r: "(case refreshReqChannel s3 of [] \<Rightarrow> Inl BlockedForever
             | x # rest \<Rightarrow> Inr (s3\<lparr> refreshReqChannel := rest \<rparr>)) = Inr s'"
    by (auto simp: RefreshCatalog_def filepath_Walk_def Let_def split: sum.splits)
  from walkCalls_keeps[OF w] have ch: "refreshReqChannel s3 = [1]"
    by (simp add: pullCatalog_keeps)
  with r have s': "s' = s3\<lparr> refreshReqChannel := [] \<rparr>" by simp
  have sched: "replicate (length ?W + 5) (0::nat) = [0, 0, 0] @ replicate (length ?W) 0 @ [0, 0]"
    by (simp add: replicate_two numeral_eq_Suc)
  have 1: "run e [0, 0, 0] (triggered 1 s) = \<lparr> shared = ?s2', pcs = [Walking ?W], crashed = None \<rparr>"
    using assms(2) by (simp add: run_def schedStep_def triggered_def)
  have 2: "run e [0, 0] \<lparr> shared = s3, pcs = [Walking []], crashed = None \<rparr> =
             \<lparr> shared = s', pcs = [Done], crashed = None \<rparr>"
    using ch s' by (simp add: run_def schedStep_def)
  show ?thesis
    unfolding sched run_append 1 run_walking[OF w] 2 ..
qed

lemma run_alone_skipped:
  assumes "refreshReqChannel s \<noteq> []"
  shows "RefreshCatalog e s = Inr (s\<lparr> logs := logs s @ [skipRecord] \<rparr>)"
    and "run e [0] (triggered 1 s) =
           \<lparr> shared = s\<lparr> logs := logs s @ [skipRecord] \<rparr>, pcs = [Skipped], crashed = None \<rparr>"
  using assms
  by (cases "refreshReqChannel s";
      simp add: RefreshCatalog_def run_def schedStep_def triggered_def skipRecord_def)+


subsection \<open>The published mapping during a walk\<close>

lemma walkInv_triggered:
  assumes "Catalog s0 = Some m0"
  shows "walkInv e m0 (triggered n s0)"
  using assms by (simp add: walkInv_def triggered_def oldOrInstalled_def)

lemma walkInv_pcs:
  assumes "walkInv e m0 cfg" and "i < length (pcs cfg)"
    and "\<forall>cs. q = Walking cs \<longrightarrow> set cs \<subseteq> set (filepath_Walk_calls e catalogRoot)"
    and "Catalog s' = Catalog (shared cfg)"
  shows "walkInv e m0 (cfg\<lparr> shared := s', pcs := (pcs cfg)[i := q] \<rparr>)"
proof -
  let ?W = "filepath_Walk_calls e catalogRoot"
  have sub: "set ((pcs cfg)[i := q]) \<subseteq> insert q (set (pcs cfg))"
    by (rule set_update_subset_insert)
  have "set cs \<subseteq> set ?W" if "Walking cs \<in> set ((pcs cfg)[i := q])" for cs
  proof -
    from that sub have "Walking cs = q \<or> Walking cs \<in> set (pcs cfg)" by blast
    then show ?thesis
    proof
      assume "Walking cs = q"
      with assms(3) show ?thesis by blast
    next
      assume "Walking cs \<in> set (pcs cfg)"
      with assms(1) show ?thesis unfolding walkInv_def by blast
    qed
  qed
  then have "\<forall>cs. Walking cs \<in> set ((pcs cfg)[i := q]) \<longrightarrow> set cs \<subseteq> set ?W" by blast
  with assms(1,4) show ?thesis unfolding walkInv_def by simp
qed

lemma walkInv_step:
  assumes inv: "walkInv e m0 cfg"
  shows "walkInv e m0 (schedStep e cfg i)"
proof (cases "crashed cfg \<noteq> None \<or> length (pcs cfg) \<le> i")
  case True
  with inv show ?thesis by (simp add: schedStep_def)
next
  case False
  then have i: "i < length (pcs cfg)" by auto
  let ?ps = "pcs cfg" and ?s = "shared cfg" and ?W = "filepath_Walk_calls e catalogRoot"
  show ?thesis
  proof (cases "?ps ! i")
    case AtSelect
    show ?thesis
    proof (cases "refreshReqChannel ?s")
      case Nil
      with AtSelect False walkInv_pcs[OF inv i, of AtPull "?s\<lparr> refreshReqChannel := [1] \<rparr>"]
      show ?thesis by (simp add: schedStep_def)
    next
      case (Cons x rest)
      with AtSelect False walkInv_pcs[OF inv i, of Skipped "?s\<lparr> logs := logs ?s @
             [(InfoLevel, ''Refresh catalog is already in process, skipping'', [])] \<rparr>"]
      show ?thesis by (simp add: schedStep_def)
    qed
  next
    case AtPull
    with False walkInv_pcs[OF inv i, of AtWalk "pullCatalog e ?s"]
    show ?thesis by (simp add: schedStep_def pullCatalog_keeps)
  next
    case AtWalk
    with False walkInv_pcs[OF inv i, of "Walking ?W" "?s\<lparr> calls := calls ?s @ [FilepathWalk catalogRoot] \<rparr>"]
    show ?thesis by (simp add: schedStep_def)
  next
    case (Walking cs)
    show ?thesis
    proof (cases cs)
      case Nil
      with Walking False walkInv_pcs[OF inv i, of AtReceive ?s]
      show ?thesis by (simp add: schedStep_def)
    next
      case (Cons c cs1)
      obtain path fo err where c: "c = (path, fo, err)" by (cases c) auto
      from nth_mem[OF i] Walking Cons have "Walking (c # cs1) \<in> set (pcs cfg)" by simp
      with inv have sub: "set (c # cs1) \<subseteq> set ?W"
        unfolding walkInv_def by blast
      from inv obtain m where m: "Catalog ?s = Some m"
        and old: "\<forall>key. oldOrInstalled e m0 key (m key)"
        unfolding walkInv_def by blast
      show ?thesis
      proof (cases "walkCatalog e path fo err ?s")
        case (Inl cr)
        with Walking Cons c False inv show ?thesis
          by (simp add: schedStep_def walkInv_def)
      next
        case (Inr s')
        let ?m' = "if discovered c then m(keyOf c \<mapsto> summaryOf e c) else m"
        from walkCatalog_step(1)[OF Inr m] c have m': "Catalog s' = Some ?m'" by simp
        have new: "oldOrInstalled e m0 key (?m' key)" for key
        proof (cases "discovered c \<and> keyOf c = key")
          case True
          with sub show ?thesis by (auto simp: oldOrInstalled_def)
        next
          case False
          with old show ?thesis by auto
        qed
        have sub': "set ((pcs cfg)[i := Walking cs1]) \<subseteq> insert (Walking cs1) (set (pcs cfg))"
          by (rule set_update_subset_insert)
        have "set cs \<subseteq> set ?W" if "Walking cs \<in> set ((pcs cfg)[i := Walking cs1])" for cs
        proof -
          from that sub' have "Walking cs = Walking cs1 \<or> Walking cs \<in> set (pcs cfg)" by blast
          then show ?thesis
          proof
            assume "Walking cs = Walking cs1"
            with sub show ?thesis by auto
          next
            assume "Walking cs \<in> set (pcs cfg)"
            with inv show ?thesis unfolding walkInv_def by blast
          qed
        qed
        then have pcs': "\<forall>cs. Walking cs \<in> set ((pcs cfg)[i := Walking cs1]) \<longrightarrow>
            set cs \<subseteq> set ?W" by blast
        have "schedStep e cfg i = cfg\<lparr> shared := s', pcs := (pcs cfg)[i := Walking cs1] \<rparr>"
          using Walking Cons c Inr False by (simp add: schedStep_def)
        with m' new pcs' show ?thesis by (simp add: walkInv_def)
      qed
    qed
  next
    case AtReceive
    show ?thesis
    proof (cases "refreshReqChannel ?s")
      case Nil
      with AtReceive False inv show ?thesis by (simp add: schedStep_def)
    next
      case (Cons x rest)
      with AtReceive False walkInv_pcs[OF inv i, of Done "?s\<lparr> refreshReqChannel := rest \<rparr>"]
      show ?thesis by (simp add: schedStep_def)
    qed
  next
    case Done
    with False inv show ?thesis by (simp add: schedStep_def)
  next
    case Skipped
    with False inv show ?thesis by (simp add: schedStep_def)
  qed
qed

lemma walkInv_run:
  assumes "walkInv e m0 cfg"
  shows "walkInv e m0 (run e sched cfg)"
  using assms unfolding run_def
  by (induction sched arbitrary: cfg) (auto intro: walkInv_step)


section \<open>The claims about concurrent refreshes\<close>

text \<open>
  Claim C2: a read of the published mapping during a rebuild sees the whole mapping of
  before the rebuild or the whole mapping of after it, never a mixture. The walk
  assigns its entries to the published map itself, one call after the other. A process
  that serves the empty repository runs a refresh on the catalog of three templates:
  after the first five steps of the refreshing goroutine (the \<^verbatim>\<open>select\<close>, the pull, the
  start of the walk and its first two calls) the published mapping holds \<^verbatim>\<open>t\<close>, which
  the mapping of before lacks, and lacks \<^verbatim>\<open>w\<close>, which the mapping of after holds. A
  reader scheduled at that point sees neither of the two.
\<close>

theorem C2_partial_rebuild_counterexample:
  "lookup_Catalog emptyServing ''t'' = None \<and>
   lookup_Catalog (shared (run exEnv [0, 0, 0, 0, 0] (triggered 1 emptyServing))) ''t'' = Some tplT \<and>
   lookup_Catalog (shared (run exEnv [0, 0, 0, 0, 0] (triggered 1 emptyServing))) ''w'' = None \<and>
   map_sum id Catalog (RefreshCatalog exEnv emptyServing) = Inr (Some exCatalog) \<and>
   exCatalog ''w'' = Some tplW"
proof -
  have "map_sum id Catalog (RefreshCatalog exEnv emptyServing) = Inr (Some exCatalog)"
    by (simp add: model_defs ex_defs)
  moreover have "shared (run exEnv [0, 0, 0, 0, 0] (triggered 1 emptyServing)) =
      emptyServing\<lparr> Catalog := Some [''t'' \<mapsto> tplT], refreshReqChannel := [1],
        logs := [(InfoLevel, ''Pulling the catalog from github to sync any new changes'', []),
                 (DebugLevel, ''Reading metadata folder for template:%s'', [''t''])],
        calls := [pullCall, walkCall, pullCall, walkCall] \<rparr>"
    by (simp add: run_def schedStep_def triggered_def model_defs ex_defs)
  ultimately show ?thesis by (simp add: lookup_Catalog_def ex_defs)
qed

text \<open>
  The published mapping at every point of every interleaving of refreshes, and what the
  reads of a run observe.
\<close>

lemma published_old_or_installed:
  assumes "Catalog s0 = Some m0"
  shows "\<exists>m. Catalog (shared (run e sched (triggered n s0))) = Some m \<and>
             (\<forall>key. oldOrInstalled e m0 key (m key))"
  using walkInv_run[OF walkInv_triggered[OF assms], of e sched n]
  unfolding walkInv_def by blast

lemma observations_walkInv:
  assumes "walkInv e m0 cfg" and "obs \<in> set (observations e acts cfg)"
  shows "\<exists>m. obs = Some m \<and> (\<forall>key. oldOrInstalled e m0 key (m key))"
  using assms
proof (induction acts arbitrary: cfg)
  case Nil
  then show ?case by simp
next
  case (Cons a acts)
  show ?case
  proof (cases a)
    case (GoStep i)
    with Cons.prems(2) have "obs \<in> set (observations e acts (schedStep e cfg i))" by simp
    with Cons.IH[OF walkInv_step[OF Cons.prems(1)]] show ?thesis by blast
  next
    case ReadCatalog
    with Cons.prems(2) have "obs = Catalog (shared cfg) \<or> obs \<in> set (observations e acts cfg)"
      by (auto split: if_splits)
    then show ?thesis
    proof
      assume "obs = Catalog (shared cfg)"
      with Cons.prems(1) show ?thesis unfolding walkInv_def by blast
    next
      assume "obs \<in> set (observations e acts cfg)"
      with Cons.IH[OF Cons.prems(1)] show ?thesis by blast
    qed
  qed
qed

text \<open>
  Claim C2 as amended: every read of the published mapping that is scheduled between
  two steps of the refreshes in progress (a step being a \<^verbatim>\<open>select\<close>, a pull, one call of
  \<^verbatim>\<open>walkCatalog\<close> or a receive, for any number of invocations in any interleaving)
  observes a mapping each entry of which, taken by itself, is either the entry of
  before the refreshes or the summary installed for that key by a call of the walk; the
  mapping as a whole may mix the two. Nothing is said of a read that overlaps the
  assignment to an entry of the map inside \<^verbatim>\<open>walkCatalog\<close>: the map has no lock, and Go
  promises nothing about such a read.
\<close>

theorem C2_reader_between_steps_sees_old_or_installed:
  assumes "Catalog s0 = Some m0"
  shows "\<forall>obs \<in> set (observations e acts (triggered n s0)).
           \<exists>m. obs = Some m \<and> (\<forall>key. oldOrInstalled e m0 key (m key))"
  using observations_walkInv[OF walkInv_triggered[OF assms], of _ e acts n]
  by blast

text \<open>
  The run of the counterexample, with a read after the fifth step: the reader finds
  \<^verbatim>\<open>t\<close> installed and \<^verbatim>\<open>w\<close> still absent as before.
\<close>

theorem C2_reader_between_steps_sees_old_or_installed_witness:
  "Catalog emptyServing = Some Map.empty \<and>
   observations exEnv [GoStep 0, GoStep 0, GoStep 0, GoStep 0, GoStep 0, ReadCatalog]
     (triggered 1 emptyServing) = [Some [''t'' \<mapsto> tplT]] \<and>
   oldOrInstalled exEnv Map.empty ''t'' (Some tplT) \<and>
   oldOrInstalled exEnv Map.empty ''w'' None"
proof -
  let ?acts = "[GoStep 0, GoStep 0, GoStep 0, GoStep 0, GoStep 0, ReadCatalog]"
  have 1: "Catalog emptyServing = Some Map.empty" by (simp add: ex_defs)
  have 2: "observations exEnv ?acts (triggered 1 emptyServing) = [Some [''t'' \<mapsto> tplT]]"
    by (simp add: schedStep_def triggered_def model_defs ex_defs)
  from C2_reader_between_steps_sees_old_or_installed[OF 1, of exEnv ?acts 1]
  have "\<exists>m. Some [''t'' \<mapsto> tplT] = Some m \<and> (\<forall>key. oldOrInstalled exEnv Map.empty key (m key))"
    unfolding 2 by simp
  then have "\<forall>key. oldOrInstalled exEnv Map.empty key ([''t'' \<mapsto> tplT] key)" by simp
  then have "oldOrInstalled exEnv Map.empty ''t'' ([''t'' \<mapsto> tplT] ''t'')"
    and "oldOrInstalled exEnv Map.empty ''w'' ([''t'' \<mapsto> tplT] ''w'')" by blast+
  with 1 2 show ?thesis by simp
qed

text \<open>
  Claim C6: at most one refresh is in flight. For any number \<open>n\<close> of invocations of
  \<^verbatim>\<open>RefreshCatalog\<close> started with the channel empty, and any schedule of their steps:
  at most one goroutine is between its admission and its release of the channel, and
  the channel holds an item exactly then; the external calls made are one pull followed
  by one walk for each invocation that has returned from a refresh, then those of the
  one in flight, and none for an invocation that was not admitted; the log has one
  skip record for each invocation that took the default branch, and such an
  invocation takes no further step; the receive that frees the channel never waits. An
  invocation run without interruption logs the
  skip record and returns the state otherwise unchanged when the channel is full; when
  it is empty and the invocation returns, it has made one pull and then one walk and has
  left the channel empty, and the goroutine that runs alone reaches the same state; it
  does return when the map is not nil and the walk has a \<^verbatim>\<open>FileInfo\<close> for every entry. So
  of two triggers of which the second arrives while the first is running, one ends
  \<open>Done\<close> and one \<open>Skipped\<close>, with one pull and one walk between them.
\<close>

theorem C6_single_flight_refresh:
  fixes e :: env and sched :: "nat list" and n :: nat and s0 :: state and cfg :: config
  defines "cfg \<equiv> run e sched (triggered n s0)"
  assumes "refreshReqChannel s0 = []"
  shows "length (inFlightPcs cfg) \<le> 1 \<and>
         length (refreshReqChannel (shared cfg)) = length (inFlightPcs cfg) \<and>
         calls (shared cfg) =
           calls s0 @ concat (replicate (doneCount cfg) [pullCall, walkCall]) @
           concat (map callsAt (inFlightPcs cfg)) \<and>
         skipsLogged (shared cfg) = skipsLogged s0 + skippedCount cfg \<and>
         length (pcs cfg) = n \<and>
         (refreshReqChannel s \<noteq> [] \<longrightarrow>
            RefreshCatalog e s = Inr (s\<lparr> logs := logs s @ [skipRecord] \<rparr>)) \<and>
         (refreshReqChannel s = [] \<and> RefreshCatalog e s = Inr s' \<longrightarrow>
            calls s' = calls s @ [pullCall, walkCall] \<and> refreshReqChannel s' = [] \<and>
            run e (replicate (length (filepath_Walk_calls e catalogRoot) + 5) 0) (triggered 1 s) =
              \<lparr> shared = s', pcs = [Done], crashed = None \<rparr>) \<and>
         (AtReceive \<in> set (pcs cfg) \<longrightarrow> refreshReqChannel (shared cfg) \<noteq> []) \<and>
         (refreshReqChannel s = [] \<and> Catalog s \<noteq> None \<and>
          None \<notin> set (map (fst \<circ> snd) (filepath_Walk_calls e catalogRoot)) \<longrightarrow>
            (\<exists>s2. RefreshCatalog e s = Inr s2))"
proof -
  have inv: "gateInv s0 cfg"
    unfolding cfg_def by (rule gateInv_run[OF gateInv_triggered[OF assms(2)]])
  have len: "length (pcs cfg) = n"
    unfolding cfg_def by (simp add: length_pcs_run triggered_def)
  have held: "RefreshCatalog e s = Inr (s\<lparr> logs := logs s @ [skipRecord] \<rparr>)"
    if "refreshReqChannel s \<noteq> []"
    using that by (rule run_alone_skipped(1))
  have free: "calls s' = calls s @ [pullCall, walkCall] \<and> refreshReqChannel s' = [] \<and>
            run e (replicate (length (filepath_Walk_calls e catalogRoot) + 5) 0) (triggered 1 s) =
              \<lparr> shared = s', pcs = [Done], crashed = None \<rparr>"
    if a: "refreshReqChannel s = [] \<and> RefreshCatalog e s = Inr s'"
  proof -
    from a have r: "run e (replicate (length (filepath_Walk_calls e catalogRoot) + 5) 0) (triggered 1 s) =
              \<lparr> shared = s', pcs = [Done], crashed = None \<rparr>"
      using run_alone by blast
    from a have g: "gateInv s (run e (replicate (length (filepath_Walk_calls e catalogRoot) + 5) 0) (triggered 1 s))"
      using gateInv_run[OF gateInv_triggered] by blast
    from g[unfolded r] have "calls s' = calls s @ [pullCall, walkCall] \<and> refreshReqChannel s' = []"
      by (simp add: gateInv_def inFlightPcs_def doneCount_def)
    with r show ?thesis by simp
  qed
  have recv: "refreshReqChannel (shared cfg) \<noteq> []" if "AtReceive \<in> set (pcs cfg)"
  proof -
    from that have "AtReceive \<in> set (inFlightPcs cfg)" by (simp add: inFlightPcs_def)
    then have "length (inFlightPcs cfg) \<noteq> 0" by auto
    with inv show ?thesis unfolding gateInv_def by auto
  qed
  have rets: "\<exists>s2. RefreshCatalog e s = Inr s2"
    if "refreshReqChannel s = [] \<and> Catalog s \<noteq> None \<and>
          None \<notin> set (map (fst \<circ> snd) (filepath_Walk_calls e catalogRoot))"
  proof -
    have "fst (snd c) \<noteq> None" if c: "c \<in> set (filepath_Walk_calls e catalogRoot)" for c
    proof
      assume "fst (snd c) = None"
      with c have "None \<in> (fst \<circ> snd) ` set (filepath_Walk_calls e catalogRoot)"
        by (metis comp_apply image_eqI)
      with \<open>refreshReqChannel s = [] \<and> Catalog s \<noteq> None \<and>
          None \<notin> set (map (fst \<circ> snd) (filepath_Walk_calls e catalogRoot))\<close>
      show False by simp
    qed
    then have "\<forall>c \<in> set (filepath_Walk_calls e catalogRoot). fst (snd c) \<noteq> None"
      by blast
    with that show ?thesis using RefreshCatalog_returns by blast
  qed
  from inv have i4: "length (inFlightPcs cfg) \<le> 1"
    "length (refreshReqChannel (shared cfg)) = length (inFlightPcs cfg)"
    "calls (shared cfg) =
           calls s0 @ concat (replicate (doneCount cfg) [pullCall, walkCall]) @
           concat (map callsAt (inFlightPcs cfg))"
    "skipsLogged (shared cfg) = skipsLogged s0 + skippedCount cfg"
    unfolding gateInv_def by blast+
  from i4 len held free recv rets show ?thesis by blast
qed

text \<open>
  Two triggers on the empty repository: the first is admitted, the second comes while the
  first is running, the first runs to its end.
\<close>

theorem C6_single_flight_refresh_witness:
  "refreshReqChannel emptyServing = [] \<and>
   pcs (run emptyEnv [0, 1, 0, 0, 0, 0, 0] (triggered 2 emptyServing)) = [Done, Skipped] \<and>
   calls (shared (run emptyEnv [0, 1, 0, 0, 0, 0, 0] (triggered 2 emptyServing))) =
     calls emptyServing @ [pullCall, walkCall] \<and>
   refreshReqChannel (shared (run emptyEnv [0, 1, 0, 0, 0, 0, 0] (triggered 2 emptyServing))) = [] \<and>
   skipsLogged (shared (run emptyEnv [0, 1, 0, 0, 0, 0, 0] (triggered 2 emptyServing))) = 1"
proof -
  let ?cfg = "run emptyEnv [0, 1, 0, 0, 0, 0, 0] (triggered 2 emptyServing)"
  have 1: "refreshReqChannel emptyServing = []" by (simp add: ex_defs)
  have t2: "triggered 2 emptyServing =
      \<lparr> shared = emptyServing, pcs = [AtSelect, AtSelect], crashed = None \<rparr>"
    by (simp add: triggered_def numeral_2_eq_2)
  have 2: "pcs ?cfg = [Done, Skipped]"
    unfolding t2 by (simp add: run_def schedStep_def model_defs ex_defs)
  have 3: "skipsLogged emptyServing = 0" by (simp add: skipsLogged_def ex_defs)
  note th = C6_single_flight_refresh[OF 1, of emptyEnv "[0, 1, 0, 0, 0, 0, 0]" 2]
  note a = th[THEN conjunct2, THEN conjunct1]
  note b = th[THEN conjunct2, THEN conjunct2, THEN conjunct1]
  note c = th[THEN conjunct2, THEN conjunct2, THEN conjunct2, THEN conjunct1]
  have d: "inFlightPcs ?cfg = []" "doneCount ?cfg = 1" "skippedCount ?cfg = 1"
    unfolding inFlightPcs_def doneCount_def skippedCount_def 2 by simp_all
  from a b c have "calls (shared ?cfg) = calls emptyServing @ [pullCall, walkCall] \<and>
        refreshReqChannel (shared ?cfg) = [] \<and> skipsLogged (shared ?cfg) = 1"
    unfolding d 3 by simp
  with 1 2 show ?thesis by simp
qed

end
